theory Spec2Isabelle
  imports
    Complex_Main
    "HOL-Library.AList"
    "HOL-Library.Multiset"
    "HOL-Library.Product_Lexorder"
    "HOL-Library.Char_ord"
    "HOL-Library.List_Lexorder"
begin

section \<open>OTVision: frame model and preprocessing (track/preprocess.py)\<close>

text \<open>
  A \<^verbatim>\<open>timedelta\<close> has microsecond resolution and is modelled as an integer number of
  microseconds. A \<^verbatim>\<open>Path\<close> is modelled by its POSIX string.

  A Python \<^verbatim>\<open>datetime\<close> is either timezone-aware or naive (without \<^verbatim>\<open>tzinfo\<close>).
  The dates that \<^verbatim>\<open>parse_datetime\<close> returns are aware, with UTC as timezone; the
  constant \<^verbatim>\<open>MISSING_START_DATE = datetime(1900, 1, 1)\<close> is naive. Both kinds are
  modelled by their microseconds since 1970-01-01 00:00 (in UTC for an aware date, on
  its own clock for a naive one). Python orders and subtracts two aware dates, or two
  naive ones; between an aware and a naive date \<^verbatim>\<open><\<close> and \<^verbatim>\<open>-\<close> raise TypeError.

  The occurrence of a frame is always a result of \<^verbatim>\<open>parse_datetime\<close>, so it is an
  aware UTC date, modelled by its microseconds alone (\<open>utc_datetime\<close>). The dates of
  a FrameRange can be of either kind.
\<close>

type_synonym timedelta = int
type_synonym path = string
type_synonym utc_datetime = int

datatype datetime = is_aware: Aware (micros: int) | Naive (micros: int)

definition seconds :: "int \<Rightarrow> timedelta" where
  "seconds n = n * 1000000"

definition minutes :: "int \<Rightarrow> timedelta" where
  "minutes n = seconds (60 * n)"

text \<open>The exceptions the modelled code can raise.\<close>

datatype py_error =
  IndexError | UnboundLocalError | AssertionError | ValueError | TypeError

text \<open>\<^verbatim>\<open>a < b\<close>, \<^verbatim>\<open>a - b\<close> and \<^verbatim>\<open>a + d\<close> on datetimes.\<close>

definition datetime_less :: "datetime \<Rightarrow> datetime \<Rightarrow> py_error + bool" where
  "datetime_less a b =
     (if is_aware a = is_aware b then Inr (micros a < micros b) else Inl TypeError)"

definition datetime_sub :: "datetime \<Rightarrow> datetime \<Rightarrow> py_error + timedelta" where
  "datetime_sub a b =
     (if is_aware a = is_aware b then Inr (micros a - micros b) else Inl TypeError)"

definition datetime_add :: "datetime \<Rightarrow> timedelta \<Rightarrow> datetime" where
  "datetime_add a d =
     (case a of Aware m \<Rightarrow> Aware (m + d) | Naive m \<Rightarrow> Naive (m + d))"

subsection \<open>FrameRange\<close>

text \<open>
  \<^verbatim>\<open>class FrameRange\<close> with the attributes \<^verbatim>\<open>_files\<close>, \<^verbatim>\<open>_start_date\<close> and
  \<^verbatim>\<open>_end_date\<close>.
\<close>

record FrameRange =
  range_files :: "path list"
  range_start_date :: datetime
  range_end_date :: datetime

text \<open>\<^verbatim>\<open>FrameRange._merge(self, first, second)\<close>\<close>

definition FrameRange_merge2 :: "FrameRange \<Rightarrow> FrameRange \<Rightarrow> FrameRange" where
  "FrameRange_merge2 first second =
     \<lparr> range_files = range_files first @ range_files second,
       range_start_date = range_start_date first,
       range_end_date = range_end_date second \<rparr>"

text \<open>
  \<^verbatim>\<open>FrameRange.merge(self, other)\<close>; the comparison of the start dates raises
  TypeError when one is aware and the other naive.
\<close>

definition FrameRange_merge :: "FrameRange \<Rightarrow> FrameRange \<Rightarrow> py_error + FrameRange" where
  "FrameRange_merge self other =
     (case datetime_less (range_start_date self) (range_start_date other) of
        Inl e \<Rightarrow> Inl e
      | Inr earlier \<Rightarrow>
          Inr (if earlier then FrameRange_merge2 self other
               else FrameRange_merge2 other self))"

subsection \<open>Detection, Frame and FrameGroup\<close>

text \<open>
  \<^verbatim>\<open>@dataclass(frozen=True) class Detection\<close>; the fields are \<^verbatim>\<open>label\<close>,
  \<^verbatim>\<open>conf\<close>, \<^verbatim>\<open>x\<close>, \<^verbatim>\<open>y\<close>, \<^verbatim>\<open>w\<close>, \<^verbatim>\<open>h\<close>. Python floats are modelled as reals.
\<close>

record Detection =
  d_label :: string
  d_conf :: real
  d_x :: real
  d_y :: real
  d_w :: real
  d_h :: real

text \<open>\<^verbatim>\<open>@dataclass(frozen=True) class Frame\<close>\<close>

record Frame =
  frame :: int
  occurrence :: utc_datetime
  input_file_path :: path
  detections :: "Detection list"

text \<open>\<^verbatim>\<open>Frame.derive_frame_number(self, new_frame_number)\<close>\<close>

definition derive_frame_number :: "Frame \<Rightarrow> int \<Rightarrow> Frame" where
  "derive_frame_number self new_frame_number =
     \<lparr> frame = new_frame_number, occurrence = occurrence self,
       input_file_path = input_file_path self, detections = detections self \<rparr>"

text \<open>\<^verbatim>\<open>@dataclass(frozen=True) class FrameGroup\<close>\<close>

record FrameGroup =
  frames :: "Frame list"
  order_key :: string

text \<open>
  \<^verbatim>\<open>FrameGroup.start_date\<close> reads \<^verbatim>\<open>self.frames[0]\<close> and \<^verbatim>\<open>FrameGroup.end_date\<close>
  reads \<^verbatim>\<open>self.frames[-1]\<close>; both raise IndexError on a group without frames.
\<close>

definition start_date :: "FrameGroup \<Rightarrow> py_error + utc_datetime" where
  "start_date self =
     (case frames self of [] \<Rightarrow> Inl IndexError | f # _ \<Rightarrow> Inr (occurrence f))"

definition end_date :: "FrameGroup \<Rightarrow> py_error + utc_datetime" where
  "end_date self =
     (if frames self = [] then Inl IndexError
      else Inr (occurrence (last (frames self))))"

text \<open>
  The loop of \<^verbatim>\<open>FrameGroup._merge\<close>: every frame of the second group is appended
  under the next frame number.
\<close>

fun renumber_loop :: "Frame list \<Rightarrow> int \<Rightarrow> Frame list \<Rightarrow> Frame list" where
  "renumber_loop all_frames last_frame_number [] = all_frames"
| "renumber_loop all_frames last_frame_number (f # fs) =
     renumber_loop
       (all_frames @ [derive_frame_number f (last_frame_number + 1)])
       (last_frame_number + 1) fs"

text \<open>
  \<^verbatim>\<open>FrameGroup._merge(self, first, second)\<close>; \<^verbatim>\<open>all_frames[-1]\<close> raises IndexError
  when the first group has no frames. The result carries the order key of \<^verbatim>\<open>self\<close>.
\<close>

definition FrameGroup_merge2 ::
  "FrameGroup \<Rightarrow> FrameGroup \<Rightarrow> FrameGroup \<Rightarrow> py_error + FrameGroup" where
  "FrameGroup_merge2 self first second =
     (let all_frames = frames first in
      if all_frames = [] then Inl IndexError
      else Inr \<lparr> frames = renumber_loop all_frames (frame (last all_frames))
                            (frames second),
                 order_key = order_key self \<rparr>)"

text \<open>\<^verbatim>\<open>FrameGroup.merge(self, other)\<close>\<close>

definition FrameGroup_merge :: "FrameGroup \<Rightarrow> FrameGroup \<Rightarrow> py_error + FrameGroup" where
  "FrameGroup_merge self other =
     (case start_date self of
        Inl e \<Rightarrow> Inl e
      | Inr s \<Rightarrow>
         (case start_date other of
            Inl e \<Rightarrow> Inl e
          | Inr s' \<Rightarrow>
             if s < s' then FrameGroup_merge2 self self other
             else FrameGroup_merge2 self other self))"

subsection \<open>What a merge of two groups is to return\<close>

text \<open>
  The specification of the merged frames, to compare \<^verbatim>\<open>FrameGroup.merge\<close> with: the
  frames \<open>fs\<close> of the first group as they are, followed by the frames \<open>gs\<close> of the
  second group, each with its own occurrence, file and detections, and with the frame
  numbers that continue after the last frame number of \<open>fs\<close>. \<open>frame_content\<close> is
  what a frame holds besides its number.
\<close>

definition merged_frames :: "Frame list \<Rightarrow> Frame list \<Rightarrow> Frame list" where
  "merged_frames fs gs =
     fs @ map (\<lambda>(g, i). \<lparr> frame = i, occurrence = occurrence g,
                           input_file_path = input_file_path g,
                           detections = detections g \<rparr>)
            (zip gs [frame (last fs) + 1..frame (last fs) + int (length gs)])"

definition frame_content :: "Frame \<Rightarrow> utc_datetime \<times> path \<times> Detection list" where
  "frame_content f = (occurrence f, input_file_path f, detections f)"

subsection \<open>Preprocess._merge_groups\<close>

text \<open>
  The loop of \<^verbatim>\<open>Preprocess._merge_groups\<close> over \<^verbatim>\<open>all_groups[1:]\<close>, with the
  accumulator \<^verbatim>\<open>merged_groups\<close> and the current chain \<^verbatim>\<open>last_group\<close>. The left
  operand \<^verbatim>\<open>current_group.start_date()\<close> is evaluated first.
\<close>

fun Preprocess_merge_loop ::
  "timedelta \<Rightarrow> FrameGroup list \<Rightarrow> FrameGroup \<Rightarrow> FrameGroup list
     \<Rightarrow> py_error + FrameGroup list" where
  "Preprocess_merge_loop time_without_frames merged_groups last_group [] =
     Inr (merged_groups @ [last_group])"
| "Preprocess_merge_loop time_without_frames merged_groups last_group
       (current_group # rest) =
     (case start_date current_group of
        Inl e \<Rightarrow> Inl e
      | Inr s \<Rightarrow>
         (case end_date last_group of
            Inl e \<Rightarrow> Inl e
          | Inr e \<Rightarrow>
             if s - e \<le> time_without_frames
             then (case FrameGroup_merge last_group current_group of
                     Inl err \<Rightarrow> Inl err
                   | Inr g \<Rightarrow>
                       Preprocess_merge_loop time_without_frames merged_groups g rest)
             else Preprocess_merge_loop time_without_frames
                    (merged_groups @ [last_group]) current_group rest))"

text \<open>\<^verbatim>\<open>Preprocess._merge_groups\<close>; \<^verbatim>\<open>all_groups[0]\<close> raises on an empty list.\<close>

definition Preprocess_merge_groups ::
  "timedelta \<Rightarrow> FrameGroup list \<Rightarrow> py_error + FrameGroup list" where
  "Preprocess_merge_groups time_without_frames all_groups =
     (case all_groups of
        [] \<Rightarrow> Inl IndexError
      | g # rest \<Rightarrow> Preprocess_merge_loop time_without_frames [] g rest)"

subsection \<open>Parsing the detection files\<close>

text \<open>
  A scalar read from a detection file is a JSON string or a JSON number. The raw
  detection and frame dictionaries are records of such scalars; a recording is the
  \<^verbatim>\<open>metadata.video\<close> dictionary together with the \<^verbatim>\<open>data\<close> dictionary, both in
  insertion order.
\<close>

datatype json_value = JStr string | JNum real

record raw_detection =
  raw_class :: string
  raw_confidence :: json_value
  raw_x :: json_value
  raw_y :: json_value
  raw_w :: json_value
  raw_h :: json_value

record raw_frame =
  raw_occurrence :: json_value
  raw_detections :: "raw_detection list"

record recording =
  metadata_video :: "(string \<times> json_value) list"
  data :: "(int \<times> raw_frame) list"

text \<open>
  The functions of \<^verbatim>\<open>OTVision.helpers.date\<close> and \<^verbatim>\<open>get_metadata\<close> of
  \<^verbatim>\<open>OTVision.helpers.files\<close> are imported by preprocess.py; together with Python's
  conversions \<^verbatim>\<open>float\<close> and \<^verbatim>\<open>int\<close> and \<^verbatim>\<open>Path.parent\<close> they are parameters
  of the model.
\<close>

record 'm helpers =
  parse_date_string_to_utc_datime :: "string \<Rightarrow> py_error + utc_datetime"
  parse_timestamp_string_to_utc_datetime :: "json_value \<Rightarrow> py_error + utc_datetime"
  get_metadata :: "recording \<Rightarrow> 'm"
  py_float :: "json_value \<Rightarrow> py_error + real"
  py_int :: "json_value \<Rightarrow> py_error + int"
  path_parent :: "path \<Rightarrow> string"

text \<open>
  Modelled from the spec: the keys \<^verbatim>\<open>RECORDED_START_DATE\<close> and
  \<^verbatim>\<open>EXPECTED_DURATION\<close> of \<^verbatim>\<open>OTVision.dataformat\<close>, which the spec names
  \<^verbatim>\<open>recorded_start_date\<close> and \<^verbatim>\<open>expected_duration\<close>.
\<close>

definition RECORDED_START_DATE :: string where
  "RECORDED_START_DATE = ''recorded_start_date''"

definition EXPECTED_DURATION :: string where
  "EXPECTED_DURATION = ''expected_duration''"

text \<open>
  \<^verbatim>\<open>MISSING_START_DATE = datetime(1900, 1, 1)\<close>: a naive date, 25567 days before
  1970-01-01.
\<close>

definition MISSING_START_DATE :: datetime where
  "MISSING_START_DATE = Naive (seconds (- (25567 * 86400)))"

definition MISSING_EXPECTED_DURATION :: timedelta where
  "MISSING_EXPECTED_DURATION = minutes 15"

text \<open>\<^verbatim>\<open>parse_datetime(date)\<close>; its result is an aware UTC date.\<close>

definition parse_datetime :: "'m helpers \<Rightarrow> json_value \<Rightarrow> py_error + utc_datetime" where
  "parse_datetime hs date =
     (case date of
        JStr s \<Rightarrow>
          if CHR ''-'' \<in> set s then parse_date_string_to_utc_datime hs s
          else parse_timestamp_string_to_utc_datetime hs date
      | JNum _ \<Rightarrow> parse_timestamp_string_to_utc_datetime hs date)"

text \<open>The body of the loop of \<^verbatim>\<open>DetectionParser.convert\<close>, and the loop.\<close>

definition parse_detection :: "'m helpers \<Rightarrow> raw_detection \<Rightarrow> py_error + Detection" where
  "parse_detection hs detection =
     (case py_float hs (raw_confidence detection) of
        Inl e \<Rightarrow> Inl e
      | Inr c \<Rightarrow>
     (case py_float hs (raw_x detection) of
        Inl e \<Rightarrow> Inl e
      | Inr vx \<Rightarrow>
     (case py_float hs (raw_y detection) of
        Inl e \<Rightarrow> Inl e
      | Inr vy \<Rightarrow>
     (case py_float hs (raw_w detection) of
        Inl e \<Rightarrow> Inl e
      | Inr vw \<Rightarrow>
     (case py_float hs (raw_h detection) of
        Inl e \<Rightarrow> Inl e
      | Inr vh \<Rightarrow>
          Inr \<lparr> d_label = raw_class detection, d_conf = c,
                d_x = vx, d_y = vy, d_w = vw, d_h = vh \<rparr>)))))"

fun DetectionParser_convert ::
  "'m helpers \<Rightarrow> Detection list \<Rightarrow> raw_detection list \<Rightarrow> py_error + Detection list" where
  "DetectionParser_convert hs detections_acc [] = Inr detections_acc"
| "DetectionParser_convert hs detections_acc (detection # rest) =
     (case parse_detection hs detection of
        Inl e \<Rightarrow> Inl e
      | Inr detected_item \<Rightarrow>
          DetectionParser_convert hs (detections_acc @ [detected_item]) rest)"

text \<open>
  \<^verbatim>\<open>FrameGroupParser.convert\<close>: the loop that parses the frames, then the stable
  sort by \<^verbatim>\<open>(occurrence, frame)\<close>.
\<close>

fun parse_frames ::
  "'m helpers \<Rightarrow> path \<Rightarrow> int \<Rightarrow> Frame list \<Rightarrow> (int \<times> raw_frame) list
     \<Rightarrow> py_error + Frame list" where
  "parse_frames hs file_path frame_offset frames_acc [] = Inr frames_acc"
| "parse_frames hs file_path frame_offset frames_acc ((key, val) # rest) =
     (case parse_datetime hs (raw_occurrence val) of
        Inl e \<Rightarrow> Inl e
      | Inr occ \<Rightarrow>
         (case DetectionParser_convert hs [] (raw_detections val) of
            Inl e \<Rightarrow> Inl e
          | Inr dets \<Rightarrow>
              parse_frames hs file_path frame_offset
                (frames_acc @ [\<lparr> frame = key + frame_offset, occurrence = occ,
                                 input_file_path = file_path, detections = dets \<rparr>])
                rest))"

definition FrameGroupParser_convert ::
  "'m helpers \<Rightarrow> path \<Rightarrow> (int \<times> raw_frame) list \<Rightarrow> int \<Rightarrow> py_error + FrameGroup" where
  "FrameGroupParser_convert hs file_path input frame_offset =
     (case parse_frames hs file_path frame_offset [] input of
        Inl e \<Rightarrow> Inl e
      | Inr fs \<Rightarrow>
          Inr \<lparr> frames = sort_key (\<lambda>f. (occurrence f, frame f)) fs,
                order_key = path_parent hs file_path \<rparr>)"

subsection \<open>Preprocess\<close>

text \<open>\<^verbatim>\<open>Preprocess.extract_start_date_from(recording)\<close>\<close>

definition Preprocess_extract_start_date_from ::
  "'m helpers \<Rightarrow> recording \<Rightarrow> py_error + datetime" where
  "Preprocess_extract_start_date_from hs rec =
     (case map_of (metadata_video rec) RECORDED_START_DATE of
        Some recorded_start_date \<Rightarrow>
          (case parse_datetime hs recorded_start_date of
             Inl e \<Rightarrow> Inl e
           | Inr d \<Rightarrow> Inr (Aware d))
      | None \<Rightarrow> Inr MISSING_START_DATE)"

text \<open>
  The loop of \<^verbatim>\<open>Preprocess._parse_frame_groups\<close> over \<^verbatim>\<open>input.items()\<close>, with
  the accumulators \<^verbatim>\<open>all_groups\<close> and \<^verbatim>\<open>metadata\<close> (a dictionary, in insertion
  order).
\<close>

fun parse_frame_groups_loop ::
  "'m helpers \<Rightarrow> int \<Rightarrow> FrameGroup list \<Rightarrow> (string \<times> 'm) list
     \<Rightarrow> (path \<times> recording) list
     \<Rightarrow> py_error + (FrameGroup list \<times> (string \<times> 'm) list)" where
  "parse_frame_groups_loop hs frame_offset all_groups metadata [] =
     Inr (all_groups, metadata)"
| "parse_frame_groups_loop hs frame_offset all_groups metadata
       ((file_path, rec) # rest) =
     (let metadata' = AList.update file_path (get_metadata hs rec) metadata in
      case Preprocess_extract_start_date_from hs rec of
        Inl e \<Rightarrow> Inl e
      | Inr start \<Rightarrow>
         (case FrameGroupParser_convert hs file_path (data rec) frame_offset of
            Inl e \<Rightarrow> Inl e
          | Inr frame_group \<Rightarrow>
              parse_frame_groups_loop hs frame_offset
                (all_groups @ [frame_group]) metadata' rest))"

definition Preprocess_parse_frame_groups ::
  "'m helpers \<Rightarrow> (path \<times> recording) list \<Rightarrow> int
     \<Rightarrow> py_error + (FrameGroup list \<times> (string \<times> 'm) list)" where
  "Preprocess_parse_frame_groups hs input frame_offset =
     parse_frame_groups_loop hs frame_offset [] [] input"

text \<open>\<^verbatim>\<open>Preprocess.process(self, input, frame_offset)\<close>\<close>

definition Preprocess_process ::
  "'m helpers \<Rightarrow> timedelta \<Rightarrow> (path \<times> recording) list \<Rightarrow> int
     \<Rightarrow> py_error + (FrameGroup list \<times> (string \<times> 'm) list)" where
  "Preprocess_process hs time_without_frames input frame_offset =
     (case Preprocess_parse_frame_groups hs input frame_offset of
        Inl e \<Rightarrow> Inl e
      | Inr (all_groups, metadata) \<Rightarrow>
          if length all_groups = 0 then Inr ([], metadata)
          else (case Preprocess_merge_groups time_without_frames all_groups of
                  Inl e \<Rightarrow> Inl e
                | Inr merged \<Rightarrow> Inr (merged, metadata)))"

subsection \<open>GroupFrameRanges\<close>

text \<open>
  \<^verbatim>\<open>GroupFrameRanges.extract_start_date_from(metadata)\<close> and
  \<^verbatim>\<open>GroupFrameRanges.extract_expected_duration_from(metadata)\<close>; the argument is
  the file's metadata, of which only the \<^verbatim>\<open>video\<close> dictionary is read.
\<close>

definition GroupFrameRanges_extract_start_date_from ::
  "'m helpers \<Rightarrow> (string \<times> json_value) list \<Rightarrow> py_error + datetime" where
  "GroupFrameRanges_extract_start_date_from hs video =
     (case map_of video RECORDED_START_DATE of
        Some recorded_start_date \<Rightarrow>
          (case parse_datetime hs recorded_start_date of
             Inl e \<Rightarrow> Inl e
           | Inr d \<Rightarrow> Inr (Aware d))
      | None \<Rightarrow> Inr MISSING_START_DATE)"

definition extract_expected_duration_from ::
  "'m helpers \<Rightarrow> (string \<times> json_value) list \<Rightarrow> py_error + timedelta" where
  "extract_expected_duration_from hs video =
     (case map_of video EXPECTED_DURATION of
        Some expected_duration \<Rightarrow>
          (case py_int hs expected_duration of
             Inl e \<Rightarrow> Inl e
           | Inr n \<Rightarrow> Inr (seconds n))
      | None \<Rightarrow> Inr MISSING_EXPECTED_DURATION)"

text \<open>The loop of \<^verbatim>\<open>GroupFrameRanges._parse_frame_ranges\<close>.\<close>

fun parse_frame_ranges_loop ::
  "'m helpers \<Rightarrow> FrameRange list \<Rightarrow> (path \<times> (string \<times> json_value) list) list
     \<Rightarrow> py_error + FrameRange list" where
  "parse_frame_ranges_loop hs all_ranges [] = Inr all_ranges"
| "parse_frame_ranges_loop hs all_ranges ((file_path, video) # rest) =
     (case GroupFrameRanges_extract_start_date_from hs video of
        Inl e \<Rightarrow> Inl e
      | Inr start \<Rightarrow>
         (case extract_expected_duration_from hs video of
            Inl e \<Rightarrow> Inl e
          | Inr duration \<Rightarrow>
              parse_frame_ranges_loop hs
                (all_ranges @ [\<lparr> range_files = [file_path], range_start_date = start,
                                 range_end_date = datetime_add start duration \<rparr>])
                rest))"

definition parse_frame_ranges ::
  "'m helpers \<Rightarrow> (path \<times> (string \<times> json_value) list) list
     \<Rightarrow> py_error + FrameRange list" where
  "parse_frame_ranges hs input = parse_frame_ranges_loop hs [] input"

text \<open>
  \<^verbatim>\<open>sorted(all_ranges, key=lambda r: r.start_date())\<close>. A sort has to compare, along
  some chain of comparisons, any two elements of its input; so with an aware and a naive
  start date in the list one of its comparisons raises TypeError. Otherwise the result
  is the stable sort by start date.
\<close>

definition sorted_by_start_date :: "FrameRange list \<Rightarrow> py_error + FrameRange list" where
  "sorted_by_start_date all_ranges =
     (if list_ex (\<lambda>r. is_aware (range_start_date r)) all_ranges
         \<and> list_ex (\<lambda>r. \<not> is_aware (range_start_date r)) all_ranges
      then Inl TypeError
      else Inr (sort_key (\<lambda>r. micros (range_start_date r)) all_ranges))"

text \<open>
  \<^verbatim>\<open>GroupFrameRanges._merge_groups\<close>: the assertion, the sort by start date and the
  loop over \<^verbatim>\<open>sorted_ranges[1:]\<close>.
\<close>

fun GroupFrameRanges_merge_loop ::
  "timedelta \<Rightarrow> FrameRange list \<Rightarrow> FrameRange \<Rightarrow> FrameRange list
     \<Rightarrow> py_error + FrameRange list" where
  "GroupFrameRanges_merge_loop time_without_frames merged_ranges last_range [] =
     Inr (merged_ranges @ [last_range])"
| "GroupFrameRanges_merge_loop time_without_frames merged_ranges last_range
       (current_range # rest) =
     (case datetime_sub (range_start_date current_range) (range_end_date last_range) of
        Inl e \<Rightarrow> Inl e
      | Inr gap \<Rightarrow>
          if gap \<le> time_without_frames
          then (case FrameRange_merge last_range current_range of
                  Inl e \<Rightarrow> Inl e
                | Inr m \<Rightarrow>
                    GroupFrameRanges_merge_loop time_without_frames merged_ranges m rest)
          else GroupFrameRanges_merge_loop time_without_frames
                 (merged_ranges @ [last_range]) current_range rest)"

definition GroupFrameRanges_merge_groups ::
  "timedelta \<Rightarrow> FrameRange list \<Rightarrow> py_error + FrameRange list" where
  "GroupFrameRanges_merge_groups time_without_frames all_ranges =
     (if \<not> length all_ranges \<ge> 1 then Inl AssertionError
      else (case sorted_by_start_date all_ranges of
              Inl e \<Rightarrow> Inl e
            | Inr sorted_ranges \<Rightarrow>
               (case sorted_ranges of
                  [] \<Rightarrow> Inl IndexError
                | r # rest \<Rightarrow>
                    GroupFrameRanges_merge_loop time_without_frames [] r rest)))"

text \<open>\<^verbatim>\<open>GroupFrameRanges.group_files(self, input)\<close>\<close>

definition group_files ::
  "'m helpers \<Rightarrow> timedelta \<Rightarrow> (path \<times> (string \<times> json_value) list) list
     \<Rightarrow> py_error + FrameRange list" where
  "group_files hs time_without_frames input =
     (case parse_frame_ranges hs input of
        Inl e \<Rightarrow> Inl e
      | Inr all_groups \<Rightarrow>
          if length all_groups = 0 then Inr []
          else GroupFrameRanges_merge_groups time_without_frames all_groups)"

section \<open>OTVision: the IOU tracker (track/iou.py)\<close>

subsection \<open>Detections, tracks, features\<close>

text \<open>
  A detection is a dictionary with the keys \<^verbatim>\<open>class\<close>, \<^verbatim>\<open>conf\<close>, \<^verbatim>\<open>x\<close>, \<^verbatim>\<open>y\<close>,
  \<^verbatim>\<open>w\<close> and \<^verbatim>\<open>h\<close>. Python floats are modelled as reals.
\<close>

record det =
  det_class :: string
  det_conf :: real
  det_x :: real
  det_y :: real
  det_w :: real
  det_h :: real

type_synonym bbox = "real \<times> real \<times> real \<times> real"

text \<open>\<^verbatim>\<open>make_bbox(obj)\<close> and \<^verbatim>\<open>center(obj)\<close>\<close>

definition make_bbox :: "det \<Rightarrow> bbox" where
  "make_bbox obj =
     (det_x obj - det_w obj / 2,
      det_y obj - det_h obj / 2,
      det_x obj + det_w obj / 2,
      det_y obj + det_h obj / 2)"

definition center :: "det \<Rightarrow> real \<times> real" where
  "center obj = (det_x obj, det_y obj)"

text \<open>
  A track is the dictionary built in \<^verbatim>\<open>track_iou\<close>, with the keys \<^verbatim>\<open>frames\<close>,
  \<^verbatim>\<open>bboxes\<close>, \<^verbatim>\<open>center\<close>, \<^verbatim>\<open>conf\<close>, \<^verbatim>\<open>class\<close>, \<^verbatim>\<open>max_class\<close>, \<^verbatim>\<open>max_conf\<close>,
  \<^verbatim>\<open>vehID\<close>, \<^verbatim>\<open>start_frame\<close> and \<^verbatim>\<open>age\<close>.
\<close>

record track =
  track_frames :: "int list"
  track_bboxes :: "bbox list"
  track_center :: "(real \<times> real) list"
  track_conf :: "real list"
  track_class :: "string list"
  track_max_class :: string
  track_max_conf :: real
  track_vehID :: int
  track_start_frame :: int
  track_age :: int

text \<open>
  A feature of \<^verbatim>\<open>tracks_geojson["features"]\<close>: the coordinates of its LineString
  and its properties. The property \<^verbatim>\<open>max_class\<close> is absent (\<open>None\<close>) until the last
  loop of \<^verbatim>\<open>track_iou\<close> sets it.
\<close>

record feature =
  coordinates :: "(real \<times> real) list"
  prop_max_conf :: real
  prop_ID :: int
  prop_start_frame :: int
  prop_max_class :: "string option"

text \<open>
  A detection of the returned \<^verbatim>\<open>new_detections\<close>: the detection dictionary with its
  added keys \<^verbatim>\<open>first\<close> and \<^verbatim>\<open>finished\<close>.
\<close>

record annotated_det =
  a_det :: det
  first :: bool
  finished :: bool

text \<open>
  The arguments of \<^verbatim>\<open>track_iou\<close> besides the detections. The function \<^verbatim>\<open>iou\<close> is
  imported from \<^verbatim>\<open>iou_util\<close> and is a parameter of the model.
\<close>

record tracker_params =
  iou :: "bbox \<Rightarrow> bbox \<Rightarrow> real"
  sigma_l :: real
  sigma_h :: real
  sigma_iou :: real
  t_min :: real
  t_miss_max :: int

text \<open>
  The variables of \<^verbatim>\<open>track_iou\<close>. \<^verbatim>\<open>new_detections\<close> maps a frame number to a
  dictionary from vehicle id to the detection with its \<^verbatim>\<open>first\<close> flag; both are in
  insertion order. \<open>track_var\<close> is the loop variable \<^verbatim>\<open>track\<close> of the loop over
  \<^verbatim>\<open>tracks_active\<close>, \<open>None\<close> as long as it is unbound; it refers to the track object
  of the last iteration, with the changes that iteration made. \<open>dets\<close>,
  \<open>updated_tracks\<close>, \<open>saved_tracks\<close> and \<open>new_tracks\<close> are set anew in every frame.
\<close>

record tracker_state =
  tracks_active :: "track list"
  features :: "feature list"
  vehID :: int
  vehIDs_finished :: "int list"
  new_detections :: "(int \<times> (int \<times> det \<times> bool) list) list"
  track_var :: "track option"
  dets :: "det list"
  updated_tracks :: "track list"
  saved_tracks :: "track list"
  new_tracks :: "track list"

definition initial_state :: tracker_state where
  "initial_state =
     \<lparr> tracks_active = [], features = [], vehID = 0, vehIDs_finished = [],
       new_detections = [], track_var = None,
       dets = [], updated_tracks = [], saved_tracks = [], new_tracks = [] \<rparr>"

subsection \<open>The loop over the active tracks\<close>

text \<open>
  Python's \<^verbatim>\<open>max(iterable, key=...)\<close>: the first element with the greatest key;
  a later element replaces the current one only when its key is strictly greater.
\<close>

fun max_key :: "('a \<Rightarrow> real) \<Rightarrow> 'a \<Rightarrow> 'a list \<Rightarrow> 'a" where
  "max_key key best [] = best"
| "max_key key best (x # xs) =
     (if key x > key best then max_key key x xs else max_key key best xs)"

text \<open>
  Lines 70 to 75: with at least one detection left, \<^verbatim>\<open>best_match\<close> is the
  detection with the highest iou against the last box of the track (a track always has
  a box); it is a match when that iou reaches \<^verbatim>\<open>sigma_iou\<close>.
\<close>

definition find_match :: "tracker_params \<Rightarrow> track \<Rightarrow> det list \<Rightarrow> det option" where
  "find_match ps track ds =
     (case ds of
        [] \<Rightarrow> None
      | d # rest \<Rightarrow>
          (let best_match =
                 max_key (\<lambda>x. iou ps (last (track_bboxes track)) (make_bbox x)) d rest
           in if iou ps (last (track_bboxes track)) (make_bbox best_match) \<ge> sigma_iou ps
              then Some best_match else None))"

text \<open>Lines 76 to 82: the track takes the matched detection.\<close>

definition update_track :: "int \<Rightarrow> track \<Rightarrow> det \<Rightarrow> track" where
  "update_track frame_num track best_match =
     track\<lparr> track_frames := track_frames track @ [frame_num],
            track_bboxes := track_bboxes track @ [make_bbox best_match],
            track_center := track_center track @ [center best_match],
            track_conf := track_conf track @ [det_conf best_match],
            track_class := track_class track @ [det_class best_match],
            track_max_conf := max (track_max_conf track) (det_conf best_match),
            track_age := 0 \<rparr>"

text \<open>
  The condition under which a track is written to the feature collection
  (lines 99 to 100 and 166 to 167), and the feature written (a track always has a
  frame, so \<^verbatim>\<open>track["frames"][-1]\<close> and \<^verbatim>\<open>track["frames"][0]\<close> do not raise).
\<close>

definition finalizable :: "tracker_params \<Rightarrow> track \<Rightarrow> bool" where
  "finalizable ps track \<longleftrightarrow>
     track_max_conf track \<ge> sigma_h ps
     \<and> real_of_int (last (track_frames track) - hd (track_frames track)) \<ge> t_min ps"

definition feature_of :: "track \<Rightarrow> feature" where
  "feature_of track =
     \<lparr> coordinates = track_center track,
       prop_max_conf = track_max_conf track,
       prop_ID = track_vehID track,
       prop_start_frame = hd (track_frames track),
       prop_max_class = None \<rparr>"

text \<open>
  The body of the loop \<^verbatim>\<open>for track in tracks_active\<close> (lines 69 to 117). A track
  that was matched is the last element of \<^verbatim>\<open>updated_tracks\<close>, and no other track is
  (the tracks of \<^verbatim>\<open>tracks_active\<close> are distinct objects), so the test of line 93
  holds exactly when the track was not matched in this iteration.
\<close>

definition track_step :: "tracker_params \<Rightarrow> int \<Rightarrow> track \<Rightarrow> tracker_state \<Rightarrow> tracker_state" where
  "track_step ps frame_num track s =
     (case find_match ps track (dets s) of
        Some best_match \<Rightarrow>
          (let track' = update_track frame_num track best_match in
           s\<lparr> updated_tracks := updated_tracks s @ [track'],
              dets := remove1 best_match (dets s),
              new_detections :=
                AList.map_entry frame_num
                  (AList.update (track_vehID track') (best_match, False))
                  (new_detections s),
              track_var := Some track' \<rparr>)
      | None \<Rightarrow>
          if track_age track < t_miss_max ps then
            (let track' = track\<lparr> track_age := track_age track + 1 \<rparr> in
             s\<lparr> saved_tracks := saved_tracks s @ [track'],
                track_var := Some track' \<rparr>)
          else if finalizable ps track then
            s\<lparr> vehIDs_finished := vehIDs_finished s @ [track_vehID track],
               features := features s @ [feature_of track],
               track_var := Some track \<rparr>
          else s\<lparr> track_var := Some track \<rparr>)"

subsection \<open>New tracks and the loop over the frames\<close>

text \<open>The body of the loop \<^verbatim>\<open>for det in dets\<close> (lines 121 to 139).\<close>

definition start_track :: "int \<Rightarrow> det \<Rightarrow> tracker_state \<Rightarrow> tracker_state" where
  "start_track frame_num d s =
     (let v = vehID s + 1 in
      s\<lparr> vehID := v,
         new_tracks := new_tracks s @
           [\<lparr> track_frames = [frame_num],
              track_bboxes = [make_bbox d],
              track_center = [center d],
              track_conf = [det_conf d],
              track_class = [det_class d],
              track_max_class = det_class d,
              track_max_conf = det_conf d,
              track_vehID = v,
              track_start_frame = frame_num,
              track_age = 0 \<rparr>],
         new_detections :=
           AList.map_entry frame_num (AList.update v (d, True)) (new_detections s) \<rparr>)"

text \<open>
  The body of the loop \<^verbatim>\<open>for frame_num in detections\<close> (lines 62 to 140); the
  argument is the frame number with \<^verbatim>\<open>detections[frame_num]["classified"]\<close>.
\<close>

definition process_frame ::
  "tracker_params \<Rightarrow> int \<times> det list \<Rightarrow> tracker_state \<Rightarrow> tracker_state" where
  "process_frame ps fr s =
     (let frame_num = fst fr;
          detections_frame = snd fr;
          s1 = s\<lparr> dets := filter (\<lambda>d. det_conf d \<ge> sigma_l ps) detections_frame,
                  new_detections := AList.update frame_num [] (new_detections s),
                  updated_tracks := [],
                  saved_tracks := [] \<rparr>;
          s2 = fold (track_step ps frame_num) (tracks_active s1) s1;
          s3 = fold (start_track frame_num) (dets s2) (s2\<lparr> new_tracks := [] \<rparr>)
      in s3\<lparr> tracks_active := updated_tracks s3 @ saved_tracks s3 @ new_tracks s3 \<rparr>)"

definition run_frames :: "tracker_params \<Rightarrow> (int \<times> det list) list \<Rightarrow> tracker_state" where
  "run_frames ps detections_by_frame =
     fold (process_frame ps) detections_by_frame initial_state"

subsection \<open>After the last frame\<close>

text \<open>
  \<^verbatim>\<open>pd.Series(values).mode()\<close> of pandas: the values that occur most often, sorted;
  \<^verbatim>\<open>.iat[0]\<close> takes the first of them and raises IndexError on an empty result.
\<close>

definition Series_mode :: "string list \<Rightarrow> string list" where
  "Series_mode values =
     (let most = fold max (map (count_list values) values) 0
      in sort (remdups (filter (\<lambda>v. count_list values v = most) values)))"

definition mode_iat0 :: "string list \<Rightarrow> py_error + string" where
  "mode_iat0 values =
     (case Series_mode values of [] \<Rightarrow> Inl IndexError | c # _ \<Rightarrow> Inr c)"

text \<open>
  Lines 173 to 176: every feature gets the mode of the classes of \<^verbatim>\<open>track\<close>, the
  variable left over from the loop over the active tracks. Reading it while it is
  unbound raises UnboundLocalError.
\<close>

fun assign_max_class :: "track option \<Rightarrow> feature list \<Rightarrow> py_error + feature list" where
  "assign_max_class tv [] = Inr []"
| "assign_max_class tv (track_geojson # rest) =
     (case tv of
        None \<Rightarrow> Inl UnboundLocalError
      | Some track \<Rightarrow>
         (case mode_iat0 (track_class track) of
            Inl e \<Rightarrow> Inl e
          | Inr c \<Rightarrow>
             (case assign_max_class tv rest of
                Inl e \<Rightarrow> Inl e
              | Inr rest' \<Rightarrow>
                  Inr (track_geojson\<lparr> prop_max_class := Some c \<rparr> # rest'))))"

text \<open>Lines 179 to 184: the \<^verbatim>\<open>finished\<close> flag of every detection of the output.\<close>

definition mark_finished ::
  "int list \<Rightarrow> (int \<times> (int \<times> det \<times> bool) list) list
     \<Rightarrow> (int \<times> (int \<times> annotated_det) list) list" where
  "mark_finished ids nd =
     map (\<lambda>(frame_num, frame_det).
            (frame_num,
             map (\<lambda>(v, d, b).
                    (v, \<lparr> a_det = d, first = b, finished = (v \<in> set ids) \<rparr>))
                 frame_det))
         nd"

text \<open>
  \<^verbatim>\<open>track_iou\<close>: the loop over the frames, the features of the tracks still active
  (lines 151 to 169), the assignment of \<^verbatim>\<open>max_class\<close> and of the \<^verbatim>\<open>finished\<close>
  flags. The result is \<^verbatim>\<open>(new_detections, tracks_geojson["features"],
  vehIDs_finished)\<close>.
\<close>

definition track_iou ::
  "tracker_params \<Rightarrow> (int \<times> det list) list
     \<Rightarrow> py_error + ((int \<times> (int \<times> annotated_det) list) list \<times> feature list \<times> int list)" where
  "track_iou ps detections_by_frame =
     (let s = run_frames ps detections_by_frame;
          all_features =
            features s @ map feature_of (filter (finalizable ps) (tracks_active s))
      in case assign_max_class (track_var s) all_features of
           Inl e \<Rightarrow> Inl e
         | Inr fs \<Rightarrow>
             Inr (mark_finished (vehIDs_finished s) (new_detections s),
                  fs, vehIDs_finished s))"

text \<open>
  Modelled from the spec: the function \<^verbatim>\<open>iou\<close> of \<^verbatim>\<open>track/iou_util.py\<close>, which is
  not among the sources. The spec (4.1) describes it as the standard intersection over
  union of two corner boxes, 0 when the boxes do not overlap or have no area. It is
  used for concrete runs of the tracker only.
\<close>

definition iou_spec :: "bbox \<Rightarrow> bbox \<Rightarrow> real" where
  "iou_spec a b =
     (case a of (ax1, ay1, ax2, ay2) \<Rightarrow>
      case b of (bx1, by1, bx2, by2) \<Rightarrow>
        (let ox1 = max ax1 bx1; oy1 = max ay1 by1;
             ox2 = min ax2 bx2; oy2 = min ay2 by2
         in if ox2 - ox1 \<le> 0 \<or> oy2 - oy1 \<le> 0 then 0
            else (let inter = (ox2 - ox1) * (oy2 - oy1);
                      union_area = (ax2 - ax1) * (ay2 - ay1) + (bx2 - bx1) * (by2 - by1) - inter
                  in if union_area \<le> 0 then 0 else inter / union_area)))"

subsection \<open>Inputs for concrete runs\<close>

text \<open>
  A confident car, a confident truck far away from it, and a car below the low
  threshold; the thresholds \<^verbatim>\<open>sigma_l = 0.25\<close>, \<^verbatim>\<open>sigma_h = 0.5\<close>,
  \<^verbatim>\<open>sigma_iou = 0.3\<close>, \<^verbatim>\<open>t_miss_max = 1\<close> and a chosen \<^verbatim>\<open>t_min\<close>.
\<close>

definition example_car :: det where
  "example_car =
     \<lparr> det_class = ''car'', det_conf = 9 / 10,
       det_x = 10, det_y = 10, det_w = 4, det_h = 4 \<rparr>"

definition example_truck :: det where
  "example_truck =
     \<lparr> det_class = ''truck'', det_conf = 8 / 10,
       det_x = 50, det_y = 50, det_w = 6, det_h = 6 \<rparr>"

definition example_faint :: det where
  "example_faint =
     \<lparr> det_class = ''car'', det_conf = 1 / 10,
       det_x = 10, det_y = 10, det_w = 4, det_h = 4 \<rparr>"

definition example_params :: "real \<Rightarrow> tracker_params" where
  "example_params tm =
     \<lparr> iou = iou_spec, sigma_l = 1 / 4, sigma_h = 1 / 2, sigma_iou = 3 / 10,
       t_min = tm, t_miss_max = 1 \<rparr>"

subsection \<open>Invariants of the tracker loop\<close>

text \<open>The miss-age of a track is within its bounds.\<close>

definition age_ok :: "tracker_params \<Rightarrow> track \<Rightarrow> bool" where
  "age_ok ps t \<longleftrightarrow> 0 \<le> track_age t \<and> track_age t \<le> t_miss_max ps"

text \<open>Every detection recorded in \<^verbatim>\<open>new_detections\<close> has confidence at least \<open>l\<close>.\<close>

definition dets_above :: "real \<Rightarrow> (int \<times> (int \<times> det \<times> bool) list) list \<Rightarrow> bool" where
  "dets_above l nd \<longleftrightarrow> (\<forall>fd \<in> snd ` set nd. \<forall>e \<in> set fd. l \<le> det_conf (fst (snd e)))"

text \<open>
  Within a frame: the detections still to be matched, the confidences of the tracks
  already handled and the recorded detections are all at least \<^verbatim>\<open>sigma_l\<close>; and the
  same between two frames, for the tracks of the pool.
\<close>

definition conf_inv :: "tracker_params \<Rightarrow> tracker_state \<Rightarrow> bool" where
  "conf_inv ps s \<longleftrightarrow>
     (\<forall>d \<in> set (dets s). sigma_l ps \<le> det_conf d)
     \<and> (\<forall>t \<in> set (updated_tracks s) \<union> set (saved_tracks s) \<union> set (new_tracks s).
           \<forall>c \<in> set (track_conf t). sigma_l ps \<le> c)
     \<and> dets_above (sigma_l ps) (new_detections s)"

definition conf_pool :: "tracker_params \<Rightarrow> tracker_state \<Rightarrow> bool" where
  "conf_pool ps s \<longleftrightarrow>
     (\<forall>t \<in> set (tracks_active s). \<forall>c \<in> set (track_conf t). sigma_l ps \<le> c)
     \<and> dets_above (sigma_l ps) (new_detections s)"

text \<open>
  Between two frames the tracks of the pool have distinct vehicle ids, none above the
  counter \<^verbatim>\<open>vehID\<close>.
\<close>

definition ids_inv :: "tracker_state \<Rightarrow> bool" where
  "ids_inv s \<longleftrightarrow>
     distinct (map track_vehID (tracks_active s))
     \<and> (\<forall>t \<in> set (tracks_active s). track_vehID t \<le> vehID s)"

text \<open>The detections of one frame's dictionary in \<^verbatim>\<open>new_detections\<close>, with multiplicity.\<close>

definition recorded :: "(int \<times> det \<times> bool) list \<Rightarrow> det multiset" where
  "recorded frame_det = mset (map (\<lambda>e. fst (snd e)) frame_det)"

text \<open>
  Within a frame: the ids of the tracks that the loop over the active tracks has kept
  so far (matched, or unmatched and still young enough).
\<close>

definition kept_ids :: "tracker_state \<Rightarrow> int set" where
  "kept_ids s = track_vehID ` set (updated_tracks s) \<union> track_vehID ` set (saved_tracks s)"

text \<open>
  The tracks that leave the active pool: \<open>left_pool s s'\<close> are the tracks of the pool
  before a frame that are not in the pool after it, as they were before the frame (the
  frame does not change a track that it drops); \<open>departures\<close> collects them over all
  frames, in order.
\<close>

definition left_pool :: "tracker_state \<Rightarrow> tracker_state \<Rightarrow> track list" where
  "left_pool s s' =
     filter (\<lambda>t. track_vehID t \<notin> track_vehID ` set (tracks_active s')) (tracks_active s)"

fun departed_from ::
  "tracker_params \<Rightarrow> tracker_state \<Rightarrow> (int \<times> det list) list \<Rightarrow> track list" where
  "departed_from ps s [] = []"
| "departed_from ps s (fr # frs) =
     left_pool s (process_frame ps fr s) @ departed_from ps (process_frame ps fr s) frs"

definition departures :: "tracker_params \<Rightarrow> (int \<times> det list) list \<Rightarrow> track list" where
  "departures ps frs = departed_from ps initial_state frs"

text \<open>
  The newest entry of every per-frame list of a track is the given frame number and
  the box, centre, confidence and class of the given detection.
\<close>

definition holds_latest :: "int \<Rightarrow> det \<Rightarrow> track \<Rightarrow> bool" where
  "holds_latest fn d t \<longleftrightarrow>
     last (track_frames t) = fn
     \<and> last (track_bboxes t) = make_bbox d
     \<and> last (track_center t) = center d
     \<and> last (track_conf t) = det_conf d
     \<and> last (track_class t) = det_class d"

text \<open>
  Within a frame, the two kinds of entries of the frame's dictionary: an entry written
  by the loop over the active tracks has \<^verbatim>\<open>first = False\<close>, its key is the id of a
  track of the pool before the frame (\<open>V\<close>), and a track with this id whose newest
  entries are the detection is among the updated tracks; an entry written for a new
  track has \<^verbatim>\<open>first = True\<close>, its key is above the id counter before the frame
  (\<open>lo\<close>), and a track with this id is among the new tracks.
\<close>

definition matched_entry :: "int \<Rightarrow> int set \<Rightarrow> track list \<Rightarrow> int \<times> det \<times> bool \<Rightarrow> bool" where
  "matched_entry fn V U e \<longleftrightarrow>
     \<not> snd (snd e) \<and> fst e \<in> V
     \<and> (\<exists>u \<in> set U. track_vehID u = fst e \<and> holds_latest fn (fst (snd e)) u)"

definition started_entry :: "int \<Rightarrow> int \<Rightarrow> track list \<Rightarrow> int \<times> det \<times> bool \<Rightarrow> bool" where
  "started_entry fn lo N e \<longleftrightarrow>
     snd (snd e) \<and> lo < fst e
     \<and> (\<exists>u \<in> set N. track_vehID u = fst e \<and> holds_latest fn (fst (snd e)) u)"

section \<open>Properties of the frame model\<close>

text \<open>
  Claim C10, as stated, fails: between a range whose start date is the naive
  \<^verbatim>\<open>MISSING_START_DATE\<close> and a range whose start date was parsed (an aware date)
  \<^verbatim>\<open>merge\<close> returns nothing; the comparison of the start dates raises TypeError.
\<close>

theorem FrameRange_merge_raises_on_naive_and_aware:
  "FrameRange_merge
     \<lparr> range_files = [''a.otdet''], range_start_date = MISSING_START_DATE,
       range_end_date = datetime_add MISSING_START_DATE MISSING_EXPECTED_DURATION \<rparr>
     \<lparr> range_files = [''b.otdet''], range_start_date = Aware 0,
       range_end_date = Aware (seconds 20) \<rparr>
   = Inl TypeError"
  by (simp add: FrameRange_merge_def datetime_less_def MISSING_START_DATE_def)

text \<open>
  Claim C10, amended. Let \<open>a\<close> and \<open>b\<close> be two FrameRanges whose start dates can be
  compared (both aware or both naive), and let \<open>earlier\<close> say whether \<open>a\<close> starts before
  \<open>b\<close>. Then \<open>a.merge(b)\<close> returns the FrameRange with the files of the earlier-starting
  range followed by the files of the later-starting range (on equal start dates \<open>b\<close>
  counts as the earlier one), with the start date of the earlier-starting range, which
  neither start date precedes, and with the end date of the later-starting range. This
  is not the maximum of the two end dates: there are ranges where the merged end date
  is earlier than the end date of one of the inputs.
\<close>

theorem FrameRange_merge_ends_with_later_start:
  assumes cmp: "datetime_less (range_start_date a) (range_start_date b) = Inr earlier"
  shows "FrameRange_merge a b =
           Inr (if earlier
                then \<lparr> range_files = range_files a @ range_files b,
                       range_start_date = range_start_date a,
                       range_end_date = range_end_date b \<rparr>
                else \<lparr> range_files = range_files b @ range_files a,
                       range_start_date = range_start_date b,
                       range_end_date = range_end_date a \<rparr>)
         \<and> (\<exists>m. FrameRange_merge a b = Inr m
               \<and> datetime_less (range_start_date a) (range_start_date m) = Inr False
               \<and> datetime_less (range_start_date b) (range_start_date m) = Inr False)
         \<and> (\<exists>c d m. datetime_less (range_start_date c) (range_start_date d) = Inr True
               \<and> datetime_less (range_end_date d) (range_end_date c) = Inr True
               \<and> FrameRange_merge c d = Inr m
               \<and> range_end_date m = range_end_date d
               \<and> datetime_less (range_end_date m) (range_end_date c) = Inr True)"
proof -
  let ?c = "\<lparr> range_files = [''a.otdet''], range_start_date = Aware 0,
              range_end_date = Aware (seconds 100) \<rparr>"
  let ?d = "\<lparr> range_files = [''b.otdet''], range_start_date = Aware (seconds 10),
              range_end_date = Aware (seconds 20) \<rparr>"
  let ?m = "\<lparr> range_files = [''a.otdet'', ''b.otdet''], range_start_date = Aware 0,
              range_end_date = Aware (seconds 20) \<rparr>"
  from cmp have kind: "is_aware (range_start_date a) = is_aware (range_start_date b)"
    and e: "earlier = (micros (range_start_date a) < micros (range_start_date b))"
    by (auto simp: datetime_less_def split: if_splits)
  have shape: "FrameRange_merge a b =
           Inr (if earlier
                then \<lparr> range_files = range_files a @ range_files b,
                       range_start_date = range_start_date a,
                       range_end_date = range_end_date b \<rparr>
                else \<lparr> range_files = range_files b @ range_files a,
                       range_start_date = range_start_date b,
                       range_end_date = range_end_date a \<rparr>)"
    using cmp by (simp add: FrameRange_merge_def FrameRange_merge2_def)
  have least: "\<exists>m. FrameRange_merge a b = Inr m
               \<and> datetime_less (range_start_date a) (range_start_date m) = Inr False
               \<and> datetime_less (range_start_date b) (range_start_date m) = Inr False"
    using kind e by (cases earlier) (simp_all add: shape datetime_less_def)
  have "datetime_less (range_start_date ?c) (range_start_date ?d) = Inr True
               \<and> datetime_less (range_end_date ?d) (range_end_date ?c) = Inr True
               \<and> FrameRange_merge ?c ?d = Inr ?m
               \<and> range_end_date ?m = range_end_date ?d
               \<and> datetime_less (range_end_date ?m) (range_end_date ?c) = Inr True"
    by (simp add: FrameRange_merge_def FrameRange_merge2_def datetime_less_def seconds_def)
  then have ex: "\<exists>c d m. datetime_less (range_start_date c) (range_start_date d) = Inr True
               \<and> datetime_less (range_end_date d) (range_end_date c) = Inr True
               \<and> FrameRange_merge c d = Inr m
               \<and> range_end_date m = range_end_date d
               \<and> datetime_less (range_end_date m) (range_end_date c) = Inr True"
    by blast
  from shape least ex show ?thesis by (intro conjI)
qed

theorem FrameRange_merge_ends_with_later_start_witness:
  "datetime_less (Aware 0) (Aware (seconds 10)) = Inr True
   \<and> FrameRange_merge
       \<lparr> range_files = [''a.otdet''], range_start_date = Aware 0,
         range_end_date = Aware (seconds 100) \<rparr>
       \<lparr> range_files = [''b.otdet''], range_start_date = Aware (seconds 10),
         range_end_date = Aware (seconds 20) \<rparr>
     = Inr \<lparr> range_files = [''a.otdet'', ''b.otdet''], range_start_date = Aware 0,
             range_end_date = Aware (seconds 20) \<rparr>"
proof -
  let ?c = "\<lparr> range_files = [''a.otdet''], range_start_date = Aware 0,
              range_end_date = Aware (seconds 100) \<rparr>"
  let ?d = "\<lparr> range_files = [''b.otdet''], range_start_date = Aware (seconds 10),
              range_end_date = Aware (seconds 20) \<rparr>"
  have cmp: "datetime_less (range_start_date ?c) (range_start_date ?d) = Inr True"
    by (simp add: datetime_less_def seconds_def)
  from FrameRange_merge_ends_with_later_start [OF cmp]
  have "FrameRange_merge ?c ?d =
           Inr (if True
                then \<lparr> range_files = range_files ?c @ range_files ?d,
                       range_start_date = range_start_date ?c,
                       range_end_date = range_end_date ?d \<rparr>
                else \<lparr> range_files = range_files ?d @ range_files ?c,
                       range_start_date = range_start_date ?d,
                       range_end_date = range_end_date ?c \<rparr>)"
    by (rule conjunct1)
  with cmp show ?thesis by simp
qed

subsection \<open>Renumbering on a merge\<close>

lemma upto_shift: "[n + 1..n + int (Suc k)] = (n + 1) # [n + 1 + 1..n + 1 + int k]"
proof -
  have "n + 1 \<le> n + int (Suc k)" by simp
  then have "[n + 1..n + int (Suc k)] = (n + 1) # [n + 1 + 1..n + int (Suc k)]"
    by (rule upto_rec1)
  moreover have "n + int (Suc k) = n + 1 + int k" by simp
  ultimately show ?thesis by (simp add: algebra_simps)
qed

lemma renumber_loop_eq:
  "renumber_loop acc n fs =
     acc @ map (\<lambda>(f, i). derive_frame_number f i) (zip fs [n + 1..n + int (length fs)])"
proof (induction fs arbitrary: acc n)
  case Nil
  then show ?case by simp
next
  case (Cons f fs)
  have "renumber_loop acc n (f # fs)
        = (acc @ [derive_frame_number f (n + 1)])
          @ map (\<lambda>(f, i). derive_frame_number f i)
              (zip fs [n + 1 + 1..n + 1 + int (length fs)])"
    using Cons.IH [of "acc @ [derive_frame_number f (n + 1)]" "n + 1"] by simp
  also have "\<dots> = acc @ map (\<lambda>(f, i). derive_frame_number f i)
                        (zip (f # fs) ((n + 1) # [n + 1 + 1..n + 1 + int (length fs)]))"
    by simp
  also have "\<dots> = acc @ map (\<lambda>(f, i). derive_frame_number f i)
                        (zip (f # fs) [n + 1..n + int (length (f # fs))])"
    using upto_shift [of n "length fs"] by simp
  finally show ?case .
qed

lemma renumber_loop_frame:
  "map frame (renumber_loop acc n fs) = map frame acc @ [n + 1..n + int (length fs)]"
proof (induction fs arbitrary: acc n)
  case Nil
  then show ?case by simp
next
  case (Cons f fs)
  have "map frame (renumber_loop acc n (f # fs))
        = map frame (acc @ [derive_frame_number f (n + 1)])
          @ [n + 1 + 1..n + 1 + int (length fs)]"
    using Cons.IH [of "acc @ [derive_frame_number f (n + 1)]" "n + 1"] by simp
  also have "\<dots> = map frame acc @ (n + 1) # [n + 1 + 1..n + 1 + int (length fs)]"
    by (simp add: derive_frame_number_def)
  also have "\<dots> = map frame acc @ [n + 1..n + int (length (f # fs))]"
    using upto_shift [of n "length fs"] by simp
  finally show ?case .
qed

lemma last_upto_int: "i \<le> j \<Longrightarrow> last [i..j] = j"
  using upto_rec2 [of i j] by simp

lemma upto_append_int:
  "0 < n \<Longrightarrow> [1..int n] @ [int n + 1..int n + int m] = [1..int (n + m)]"
proof -
  assume "0 < n"
  then have "[1..int (n + m)] = [1..int n] @ [int n + 1..int (n + m)]"
    by (intro upto_split2) simp_all
  then show ?thesis by simp
qed

lemma length_upto_from: "length [n + 1..n + int k] = k"
  by simp

lemma renumber_loop_merged:
  "fs \<noteq> [] \<Longrightarrow> renumber_loop fs (frame (last fs)) gs = merged_frames fs gs"
proof -
  have "(\<lambda>(f, i). derive_frame_number f i)
          = (\<lambda>(g, i). \<lparr> frame = i, occurrence = occurrence g,
                           input_file_path = input_file_path g,
                           detections = detections g \<rparr>)"
    by (simp add: derive_frame_number_def fun_eq_iff)
  then show ?thesis by (simp add: renumber_loop_eq merged_frames_def)
qed

lemma FrameGroup_merge_eq:
  assumes "start_date a = Inr sa" "start_date b = Inr sb"
  shows "FrameGroup_merge a b =
           Inr \<lparr> frames = (if sa < sb then merged_frames (frames a) (frames b)
                            else merged_frames (frames b) (frames a)),
                 order_key = order_key a \<rparr>"
proof -
  from assms have "frames a \<noteq> []" "frames b \<noteq> []"
    by (auto simp: start_date_def split: list.splits)
  then show ?thesis using assms
    by (simp add: FrameGroup_merge_def FrameGroup_merge2_def Let_def renumber_loop_merged)
qed

lemma merged_frames_prefix: "take (length fs) (merged_frames fs gs) = fs"
  by (simp add: merged_frames_def)

lemma map_fst_of_zip:
  "length xs = length ys \<Longrightarrow> map (\<lambda>p. h (fst p)) (zip xs ys) = map h xs"
  by (induction xs ys rule: list_induct2) simp_all

lemma zip_upto_map:
  "map (\<lambda>p. h (fst p)) (zip gs [n + 1..n + int (length gs)]) = map h gs"
  by (rule map_fst_of_zip) simp

lemma merged_frames_content:
  "map occurrence (merged_frames fs gs) = map occurrence (fs @ gs)"
  "map input_file_path (merged_frames fs gs) = map input_file_path (fs @ gs)"
  "map detections (merged_frames fs gs) = map detections (fs @ gs)"
  using zip_upto_map [of occurrence gs "frame (last fs)"]
    zip_upto_map [of input_file_path gs "frame (last fs)"]
    zip_upto_map [of detections gs "frame (last fs)"]
  by (simp_all add: merged_frames_def comp_def case_prod_beta)

lemma merged_frames_numbers:
  "map frame (merged_frames fs gs)
     = map frame fs @ [frame (last fs) + 1..frame (last fs) + int (length gs)]"
proof -
  have "map (\<lambda>p. snd p) (zip gs [frame (last fs) + 1..frame (last fs) + int (length gs)])
          = [frame (last fs) + 1..frame (last fs) + int (length gs)]"
    using map_snd_zip [of gs "[frame (last fs) + 1..frame (last fs) + int (length gs)]"]
    by simp
  then show ?thesis by (simp add: merged_frames_def comp_def case_prod_beta)
qed

text \<open>
  Claim C5. Let the frames of group \<open>A\<close> be numbered 1 to N without gaps, let \<open>B\<close> have M
  frames, and let \<open>A\<close> start earlier than \<open>B\<close>. Then \<open>A.merge(B)\<close> returns a group of
  N + M frames with the order key of \<open>A\<close>: its first N frames are the frames of \<open>A\<close>,
  its frame numbers are exactly 1 to N + M in increasing order, and the occurrences,
  files and detections of its frames are those of the frames of \<open>A\<close> followed by those
  of the frames of \<open>B\<close>. So the frames after the first N are the frames of \<open>B\<close>,
  unchanged but for their numbers N + 1 to N + M.
\<close>

theorem FrameGroup_merge_renumbers_contiguously:
  assumes numbered: "map frame (frames A) = [1..int (length (frames A))]"
    and sa: "start_date A = Inr sa" and sb: "start_date B = Inr sb"
    and earlier: "sa < sb"
  shows "\<exists>g. FrameGroup_merge A B = Inr g
           \<and> order_key g = order_key A
           \<and> length (frames g) = length (frames A) + length (frames B)
           \<and> take (length (frames A)) (frames g) = frames A
           \<and> map frame (frames g) = [1..int (length (frames A) + length (frames B))]
           \<and> map occurrence (frames g) = map occurrence (frames A @ frames B)
           \<and> map input_file_path (frames g) = map input_file_path (frames A @ frames B)
           \<and> map detections (frames g) = map detections (frames A @ frames B)"
proof -
  from sa have ne: "frames A \<noteq> []"
    by (auto simp: start_date_def split: list.splits)
  let ?g = "\<lparr> frames = merged_frames (frames A) (frames B), order_key = order_key A \<rparr>"
  have m: "FrameGroup_merge A B = Inr ?g"
    using FrameGroup_merge_eq [OF sa sb] earlier by simp
  have "frame (last (frames A)) = last (map frame (frames A))"
    using ne by (simp add: last_map)
  also have "\<dots> = int (length (frames A))"
  proof -
    have "1 \<le> int (length (frames A))"
      using ne by (cases "frames A") simp_all
    then show ?thesis by (simp add: numbered last_upto_int)
  qed
  finally have lastn: "frame (last (frames A)) = int (length (frames A))" .
  have nums: "map frame (frames ?g) = [1..int (length (frames A) + length (frames B))]"
    using upto_append_int [of "length (frames A)" "length (frames B)"] ne
    by (simp add: merged_frames_numbers lastn numbered)
  have len: "length (frames ?g) = length (frames A) + length (frames B)"
    using arg_cong [OF nums, of length] by simp
  show ?thesis
    using m nums len
    by (simp add: merged_frames_prefix merged_frames_content)
qed

theorem FrameGroup_merge_renumbers_contiguously_witness:
  "FrameGroup_merge
     \<lparr> frames = [\<lparr> frame = 1, occurrence = 0, input_file_path = ''a'', detections = [] \<rparr>,
                  \<lparr> frame = 2, occurrence = 5, input_file_path = ''a'', detections = [] \<rparr>],
       order_key = ''k'' \<rparr>
     \<lparr> frames = [\<lparr> frame = 1, occurrence = 10, input_file_path = ''b'',
                    detections = [\<lparr> d_label = ''car'', d_conf = 1, d_x = 2, d_y = 3,
                                    d_w = 4, d_h = 5 \<rparr>] \<rparr>],
       order_key = ''k'' \<rparr>
   = Inr
     \<lparr> frames = [\<lparr> frame = 1, occurrence = 0, input_file_path = ''a'', detections = [] \<rparr>,
                  \<lparr> frame = 2, occurrence = 5, input_file_path = ''a'', detections = [] \<rparr>,
                  \<lparr> frame = 3, occurrence = 10, input_file_path = ''b'',
                    detections = [\<lparr> d_label = ''car'', d_conf = 1, d_x = 2, d_y = 3,
                                    d_w = 4, d_h = 5 \<rparr>] \<rparr>],
       order_key = ''k'' \<rparr>"
proof -
  let ?f1 = "\<lparr> frame = 1, occurrence = 0, input_file_path = ''a'', detections = [] \<rparr>"
  let ?f2 = "\<lparr> frame = 2, occurrence = 5, input_file_path = ''a'', detections = [] \<rparr>"
  let ?dets = "[\<lparr> d_label = ''car'', d_conf = 1, d_x = 2, d_y = 3, d_w = 4, d_h = 5 \<rparr>]"
  let ?A = "\<lparr> frames = [?f1, ?f2], order_key = ''k'' \<rparr>"
  let ?B = "\<lparr> frames = [\<lparr> frame = 1, occurrence = 10, input_file_path = ''b'',
                          detections = ?dets \<rparr>],
              order_key = ''k'' \<rparr>"
  have n: "map frame (frames ?A) = [1..int (length (frames ?A))]"
    by (simp add: upto.simps)
  have a: "start_date ?A = Inr 0" by (simp add: start_date_def)
  have b: "start_date ?B = Inr 10" by (simp add: start_date_def)
  have lt: "(0::int) < 10" by simp
  from FrameGroup_merge_renumbers_contiguously [OF n a b lt]
  obtain g where g: "FrameGroup_merge ?A ?B = Inr g"
    and k: "order_key g = order_key ?A"
    and len: "length (frames g) = length (frames ?A) + length (frames ?B)"
    and pre: "take (length (frames ?A)) (frames g) = frames ?A"
    and nums: "map frame (frames g) = [1..int (length (frames ?A) + length (frames ?B))]"
    and occ: "map occurrence (frames g) = map occurrence (frames ?A @ frames ?B)"
    and pth: "map input_file_path (frames g) = map input_file_path (frames ?A @ frames ?B)"
    and dts: "map detections (frames g) = map detections (frames ?A @ frames ?B)"
    by (elim exE conjE)
  from len obtain x y z where fs: "frames g = [x, y, z]"
    by (cases "frames g" rule: list.exhaust)
       (auto simp: length_Suc_conv)
  from pre fs have xy: "x = ?f1" "y = ?f2" by simp_all
  have "[1..int (length (frames ?A) + length (frames ?B))] = [1, 2, 3]"
    by (simp add: upto.simps)
  with nums fs have "frame z = 3" by simp
  moreover from occ fs have "occurrence z = 10" by simp
  moreover from pth fs have "input_file_path z = ''b''" by simp
  moreover from dts fs have "detections z = ?dets" by simp
  ultimately have z: "z = \<lparr> frame = 3, occurrence = 10, input_file_path = ''b'',
                            detections = ?dets \<rparr>"
    by (cases z) simp
  have "g = \<lparr> frames = [?f1, ?f2, z], order_key = ''k'' \<rparr>"
    using fs xy k by (cases g) simp
  with g z show ?thesis by simp
qed


subsection \<open>The merge decision of Preprocess\<close>

lemma merge_loop_acc:
  "Preprocess_merge_loop twf (acc @ merged) lg rest =
     map_sum id ((@) acc) (Preprocess_merge_loop twf merged lg rest)"
  by (induction rest arbitrary: merged lg) (auto split: sum.splits)

lemma merge_loop_singleton_acc:
  "Preprocess_merge_loop twf [a] lg rest =
     map_sum id ((#) a) (Preprocess_merge_loop twf [] lg rest)"
proof -
  have "Preprocess_merge_loop twf ([a] @ []) lg rest =
     map_sum id ((@) [a]) (Preprocess_merge_loop twf [] lg rest)"
    by (rule merge_loop_acc)
  moreover have "(@) [a] = (#) a" by (rule ext) simp
  ultimately show ?thesis by simp
qed

lemma merged_frames_frame_content:
  "map frame_content (merged_frames fs gs) = map frame_content (fs @ gs)"
proof -
  have "map (\<lambda>p. frame_content (fst p))
          (zip gs [frame (last fs) + 1..frame (last fs) + int (length gs)])
        = map frame_content gs"
    by (rule zip_upto_map)
  then show ?thesis
    by (simp add: merged_frames_def comp_def case_prod_beta frame_content_def)
qed

text \<open>
  Claim C6. Preprocess goes through the parsed groups in encounter order. With the
  current chain \<open>a\<close> (whose start and end timestamps are \<open>sa\<close> and \<open>ea\<close>) and the next
  candidate \<open>b\<close> (whose start timestamp is \<open>sb\<close>), the candidate is merged into the
  chain if and only if \<open>sb - ea \<le> time_without_frames\<close>, the bound included. Then the
  run continues with the merged group as the chain: the frames of the earlier-starting
  of the two groups, followed by the frames of the other one under the frame numbers
  that continue the count, so that the chain holds the content of the frames of both.
  Otherwise \<open>a\<close> is closed as an output group and \<open>b\<close> starts the next chain. In
  particular two groups that are 61 seconds apart stay two groups under a tolerance of
  60 seconds.
\<close>

theorem Preprocess_merges_iff_gap_within_tolerance:
  assumes sa: "start_date a = Inr sa" and ea: "end_date a = Inr ea"
    and sb: "start_date b = Inr sb"
  shows "Preprocess_merge_groups twf (a # b # rest) =
          (if sb - ea \<le> twf
           then Preprocess_merge_groups twf
                  (\<lparr> frames = (if sa < sb then merged_frames (frames a) (frames b)
                                else merged_frames (frames b) (frames a)),
                     order_key = order_key a \<rparr> # rest)
           else map_sum id ((#) a) (Preprocess_merge_groups twf (b # rest)))
       \<and> Preprocess_merge_groups twf [a, b] =
           Inr (if sb - ea \<le> twf
                then [\<lparr> frames = (if sa < sb then merged_frames (frames a) (frames b)
                                   else merged_frames (frames b) (frames a)),
                        order_key = order_key a \<rparr>]
                else [a, b])
       \<and> map frame_content
             (if sa < sb then merged_frames (frames a) (frames b)
              else merged_frames (frames b) (frames a))
           = (if sa < sb then map frame_content (frames a) @ map frame_content (frames b)
              else map frame_content (frames b) @ map frame_content (frames a))
       \<and> (sb - ea = seconds 61 \<longrightarrow>
            Preprocess_merge_groups (seconds 60) [a, b] = Inr [a, b])"
proof -
  let ?m = "\<lparr> frames = (if sa < sb then merged_frames (frames a) (frames b)
                        else merged_frames (frames b) (frames a)),
              order_key = order_key a \<rparr>"
  have m: "FrameGroup_merge a b = Inr ?m"
    using sa sb by (rule FrameGroup_merge_eq)
  have step: "Preprocess_merge_groups twf (a # b # rest) =
          (if sb - ea \<le> twf
           then Preprocess_merge_groups twf (?m # rest)
           else map_sum id ((#) a) (Preprocess_merge_groups twf (b # rest)))"
    using sb ea m
    by (simp add: Preprocess_merge_groups_def merge_loop_singleton_acc)
  have two: "\<And>t. Preprocess_merge_groups t [a, b] =
                  Inr (if sb - ea \<le> t then [?m] else [a, b])"
    using sb ea m by (simp add: Preprocess_merge_groups_def)
  have content: "map frame_content (frames ?m)
           = (if sa < sb then map frame_content (frames a) @ map frame_content (frames b)
              else map frame_content (frames b) @ map frame_content (frames a))"
    by (simp add: merged_frames_frame_content)
  have far: "sb - ea = seconds 61 \<longrightarrow>
            Preprocess_merge_groups (seconds 60) [a, b] = Inr [a, b]"
    by (simp add: two seconds_def)
  from step two [of twf] content far show ?thesis by simp
qed

theorem Preprocess_merges_iff_gap_within_tolerance_witness:
  "Preprocess_merge_groups (seconds 60)
     [\<lparr> frames = [\<lparr> frame = 1, occurrence = 0, input_file_path = ''a'', detections = [] \<rparr>],
        order_key = ''k'' \<rparr>,
      \<lparr> frames = [\<lparr> frame = 1, occurrence = seconds 61, input_file_path = ''b'',
                    detections = [] \<rparr>],
        order_key = ''k'' \<rparr>]
   = Inr
     [\<lparr> frames = [\<lparr> frame = 1, occurrence = 0, input_file_path = ''a'', detections = [] \<rparr>],
        order_key = ''k'' \<rparr>,
      \<lparr> frames = [\<lparr> frame = 1, occurrence = seconds 61, input_file_path = ''b'',
                    detections = [] \<rparr>],
        order_key = ''k'' \<rparr>]
   \<and> Preprocess_merge_groups (seconds 60)
     [\<lparr> frames = [\<lparr> frame = 1, occurrence = 0, input_file_path = ''a'', detections = [] \<rparr>],
        order_key = ''k'' \<rparr>,
      \<lparr> frames = [\<lparr> frame = 1, occurrence = seconds 60, input_file_path = ''b'',
                    detections = [] \<rparr>],
        order_key = ''k'' \<rparr>]
   = Inr
     [\<lparr> frames = [\<lparr> frame = 1, occurrence = 0, input_file_path = ''a'', detections = [] \<rparr>,
                   \<lparr> frame = 2, occurrence = seconds 60, input_file_path = ''b'',
                     detections = [] \<rparr>],
        order_key = ''k'' \<rparr>]"
proof -
  let ?a = "\<lparr> frames = [\<lparr> frame = 1, occurrence = 0, input_file_path = ''a'', detections = [] \<rparr>],
        order_key = ''k'' \<rparr>"
  let ?b = "\<lparr> frames = [\<lparr> frame = 1, occurrence = seconds 61, input_file_path = ''b'',
                    detections = [] \<rparr>],
        order_key = ''k'' \<rparr>"
  let ?c = "\<lparr> frames = [\<lparr> frame = 1, occurrence = seconds 60, input_file_path = ''b'',
                    detections = [] \<rparr>],
        order_key = ''k'' \<rparr>"
  have sa: "start_date ?a = Inr 0" by (simp add: start_date_def)
  have ea: "end_date ?a = Inr 0" by (simp add: end_date_def)
  have sb: "start_date ?b = Inr (seconds 61)" by (simp add: start_date_def)
  have sc: "start_date ?c = Inr (seconds 60)" by (simp add: start_date_def)
  have 1: "Preprocess_merge_groups (seconds 60) [?a, ?b] =
           Inr (if seconds 61 - 0 \<le> seconds 60
                then [\<lparr> frames = (if 0 < seconds 61 then merged_frames (frames ?a) (frames ?b)
                                   else merged_frames (frames ?b) (frames ?a)),
                        order_key = order_key ?a \<rparr>]
                else [?a, ?b])"
    using Preprocess_merges_iff_gap_within_tolerance [OF sa ea sb, of "seconds 60" "[]"]
    by (elim conjE)
  have 2: "Preprocess_merge_groups (seconds 60) [?a, ?c] =
           Inr (if seconds 60 - 0 \<le> seconds 60
                then [\<lparr> frames = (if 0 < seconds 60 then merged_frames (frames ?a) (frames ?c)
                                   else merged_frames (frames ?c) (frames ?a)),
                        order_key = order_key ?a \<rparr>]
                else [?a, ?c])"
    using Preprocess_merges_iff_gap_within_tolerance [OF sa ea sc, of "seconds 60" "[]"]
    by (elim conjE)
  have up: "[(2::int)..2] = [2]" by (simp add: upto.simps)
  show ?thesis
    using 1 2 by (simp add: seconds_def merged_frames_def up)
qed

subsection \<open>Empty input\<close>

text \<open>
  Claim C8. On an empty mapping from files to data, \<open>Preprocess.process\<close> returns an
  empty list of frame groups and empty metadata, and \<open>GroupFrameRanges.group_files\<close>
  returns an empty list of frame ranges; neither raises.
\<close>

theorem empty_input_yields_empty_results:
  "Preprocess_process hs time_without_frames [] frame_offset = Inr ([], [])
   \<and> group_files hs time_without_frames [] = Inr []"
  by (simp add: Preprocess_process_def Preprocess_parse_frame_groups_def
      group_files_def parse_frame_ranges_def)

section \<open>Properties of the tracker\<close>

subsection \<open>Concrete runs\<close>

text \<open>
  Claim C1, at an input where the code departs from it. One frame holds one confident
  car, and \<^verbatim>\<open>t_min\<close> is 0. When the input ends the track of the car is active, its
  maximum confidence 0.9 reaches \<^verbatim>\<open>sigma_h\<close> and its frame span 0 reaches \<^verbatim>\<open>t_min\<close>,
  so it is written to the feature collection; but no feature collection is returned:
  the loop over the active tracks never ran, so reading \<^verbatim>\<open>track\<close> in the loop that
  sets \<^verbatim>\<open>max_class\<close> raises UnboundLocalError. (On the runs that return, the features
  are those of the tracks that pass the two tests when they leave the pool; this is
  the last lemma of this theory.)
\<close>

theorem track_iou_raises_on_track_of_last_frame:
  "map track_vehID
     (filter (finalizable (example_params 0))
        (tracks_active (run_frames (example_params 0) [(1, [example_car])]))) = [1]
   \<and> track_iou (example_params 0) [(1, [example_car])] = Inl UnboundLocalError"
  by code_simp

text \<open>
  Claim C2, at an input where the code departs from it. A car and a truck are seen in
  two frames. Both tracks are written to the feature collection when the input ends.
  The track with ID 1 has the classes car, car, whose mode is car, but its feature gets
  the class truck: every feature gets the mode of the classes of the track the loop
  over the active tracks visited last.
\<close>

theorem track_iou_max_class_of_other_track:
  "track_iou (example_params 1)
     [(1, [example_car, example_truck]), (2, [example_car, example_truck])]
   = Inr ([(1, [(1, \<lparr> a_det = example_car, first = True, finished = False \<rparr>),
                (2, \<lparr> a_det = example_truck, first = True, finished = False \<rparr>)]),
           (2, [(1, \<lparr> a_det = example_car, first = False, finished = False \<rparr>),
                (2, \<lparr> a_det = example_truck, first = False, finished = False \<rparr>)])],
          [\<lparr> coordinates = [(10, 10), (10, 10)], prop_max_conf = 9 / 10, prop_ID = 1,
             prop_start_frame = 1, prop_max_class = Some ''truck'' \<rparr>,
           \<lparr> coordinates = [(50, 50), (50, 50)], prop_max_conf = 8 / 10, prop_ID = 2,
             prop_start_frame = 1, prop_max_class = Some ''truck'' \<rparr>],
          [])
   \<and> map (\<lambda>t. (track_vehID t, track_class t, mode_iat0 (track_class t)))
       (tracks_active (run_frames (example_params 1)
          [(1, [example_car, example_truck]), (2, [example_car, example_truck])]))
     = [(1, [''car'', ''car''], Inr ''car''), (2, [''truck'', ''truck''], Inr ''truck'')]"
  by code_simp

text \<open>
  Claim C3, as stated, fails: a frame whose only detection is below \<^verbatim>\<open>sigma_l\<close> has
  an empty dictionary in the output, so the detection is not carried through.
\<close>

theorem track_iou_drops_detection_below_sigma_l:
  "track_iou (example_params 1) [(1, [example_faint])] = Inr ([(1, [])], [], [])"
  by code_simp

text \<open>
  Claim C4, at an input where the code departs from it. A car is seen in two frames;
  when the input ends its track is written to the feature collection (ID 1). The list
  of finished vehicle ids is empty all the same, and both detections of the track have
  the \<^verbatim>\<open>finished\<close> flag False: the ids are recorded only where a track is finalized
  within the loop over the frames.
\<close>

theorem track_iou_end_of_input_track_not_finished:
  "track_iou (example_params 1) [(1, [example_car]), (2, [example_car])]
   = Inr ([(1, [(1, \<lparr> a_det = example_car, first = True, finished = False \<rparr>)]),
           (2, [(1, \<lparr> a_det = example_car, first = False, finished = False \<rparr>)])],
          [\<lparr> coordinates = [(10, 10), (10, 10)], prop_max_conf = 9 / 10, prop_ID = 1,
             prop_start_frame = 1, prop_max_class = Some ''car'' \<rparr>],
          [])"
  by code_simp

subsection \<open>What one iteration changes\<close>

lemma start_track_fields [simp]:
  "updated_tracks (start_track fn d s) = updated_tracks s"
  "saved_tracks (start_track fn d s) = saved_tracks s"
  "dets (start_track fn d s) = dets s"
  "features (start_track fn d s) = features s"
  "vehIDs_finished (start_track fn d s) = vehIDs_finished s"
  "track_var (start_track fn d s) = track_var s"
  "tracks_active (start_track fn d s) = tracks_active s"
  "vehID (start_track fn d s) = vehID s + 1"
  by (simp_all add: start_track_def Let_def)

lemma fold_start_track_fields [simp]:
  "updated_tracks (fold (start_track fn) ds s) = updated_tracks s"
  "saved_tracks (fold (start_track fn) ds s) = saved_tracks s"
  "features (fold (start_track fn) ds s) = features s"
  "vehIDs_finished (fold (start_track fn) ds s) = vehIDs_finished s"
  "track_var (fold (start_track fn) ds s) = track_var s"
  by (induction ds arbitrary: s) simp_all

lemma max_key_mem: "max_key key b xs \<in> set (b # xs)"
  by (induction xs arbitrary: b) (auto split: if_splits)

lemma find_match_mem:
  assumes "find_match ps track ds = Some bm"
  shows "bm \<in> set ds"
proof (cases ds)
  case Nil
  with assms show ?thesis by (simp add: find_match_def)
next
  case (Cons d rest)
  let ?key = "\<lambda>x. iou ps (last (track_bboxes track)) (make_bbox x)"
  from assms Cons have "bm = max_key ?key d rest"
    by (simp add: find_match_def Let_def split: if_splits)
  then show ?thesis using max_key_mem [of ?key d rest] Cons by simp
qed

subsection \<open>Miss-age\<close>

lemma track_step_age:
  assumes "0 \<le> t_miss_max ps" "0 \<le> track_age t"
    and "\<forall>u \<in> set (updated_tracks s) \<union> set (saved_tracks s). age_ok ps u"
  shows "\<forall>u \<in> set (updated_tracks (track_step ps fn t s))
              \<union> set (saved_tracks (track_step ps fn t s)). age_ok ps u"
  using assms
  by (auto simp: track_step_def Let_def age_ok_def update_track_def split: option.splits)

lemma fold_track_step_age:
  assumes "0 \<le> t_miss_max ps" "\<forall>t \<in> set ts. 0 \<le> track_age t"
    and "\<forall>u \<in> set (updated_tracks s) \<union> set (saved_tracks s). age_ok ps u"
  shows "\<forall>u \<in> set (updated_tracks (fold (track_step ps fn) ts s))
              \<union> set (saved_tracks (fold (track_step ps fn) ts s)). age_ok ps u"
  using assms
proof (induction ts arbitrary: s)
  case Nil
  then show ?case by simp
next
  case (Cons t ts)
  have "\<forall>u \<in> set (updated_tracks (track_step ps fn t s))
              \<union> set (saved_tracks (track_step ps fn t s)). age_ok ps u"
    using Cons.prems by (intro track_step_age) simp_all
  then show ?case using Cons.IH [of "track_step ps fn t s"] Cons.prems by simp
qed

lemma fold_start_track_age:
  assumes "0 \<le> t_miss_max ps" "\<forall>u \<in> set (new_tracks s). age_ok ps u"
  shows "\<forall>u \<in> set (new_tracks (fold (start_track fn) ds s)). age_ok ps u"
  using assms
proof (induction ds arbitrary: s)
  case Nil
  then show ?case by simp
next
  case (Cons d ds)
  have "\<forall>u \<in> set (new_tracks (start_track fn d s)). age_ok ps u"
    using Cons.prems by (auto simp: start_track_def Let_def age_ok_def)
  then show ?case using Cons.IH [of "start_track fn d s"] Cons.prems by simp
qed

lemma process_frame_age:
  assumes tmm: "0 \<le> t_miss_max ps" and inv: "\<forall>t \<in> set (tracks_active s). age_ok ps t"
  shows "\<forall>t \<in> set (tracks_active (process_frame ps fr s)). age_ok ps t"
proof -
  define s1 where "s1 = s\<lparr> dets := filter (\<lambda>d. det_conf d \<ge> sigma_l ps) (snd fr),
                  new_detections := AList.update (fst fr) [] (new_detections s),
                  updated_tracks := [],
                  saved_tracks := [] \<rparr>"
  define s2 where "s2 = fold (track_step ps (fst fr)) (tracks_active s1) s1"
  define s3 where "s3 = fold (start_track (fst fr)) (dets s2) (s2\<lparr> new_tracks := [] \<rparr>)"
  have active: "tracks_active (process_frame ps fr s)
                  = updated_tracks s3 @ saved_tracks s3 @ new_tracks s3"
    by (simp add: process_frame_def Let_def s1_def s2_def s3_def)
  have "\<forall>t \<in> set (tracks_active s1). 0 \<le> track_age t"
    using inv by (simp add: s1_def age_ok_def)
  moreover have "\<forall>u \<in> set (updated_tracks s1) \<union> set (saved_tracks s1). age_ok ps u"
    by (simp add: s1_def)
  ultimately have a2: "\<forall>u \<in> set (updated_tracks s2) \<union> set (saved_tracks s2). age_ok ps u"
    unfolding s2_def using tmm by (intro fold_track_step_age) simp_all
  have a3: "\<forall>u \<in> set (new_tracks s3). age_ok ps u"
    unfolding s3_def using tmm by (intro fold_start_track_age) simp_all
  have "updated_tracks s3 = updated_tracks s2" "saved_tracks s3 = saved_tracks s2"
    by (simp_all add: s3_def)
  with a2 a3 show ?thesis by (auto simp: active)
qed

lemma run_frames_snoc:
  "run_frames ps (frs @ [fr]) = process_frame ps fr (run_frames ps frs)"
  by (simp add: run_frames_def)

text \<open>
  Claim C9. With a maximum miss-age \<^verbatim>\<open>t_miss_max\<close> that is not negative, after every
  frame each track of the active pool has a miss-age between 0 and \<^verbatim>\<open>t_miss_max\<close>,
  both included: the age is 0 for a new or matched track, and it is incremented only
  while it is below \<^verbatim>\<open>t_miss_max\<close>. Every list of frames is a prefix of an input, so
  the statement covers the pool after each frame.
\<close>

theorem active_tracks_age_within_t_miss_max:
  assumes "0 \<le> t_miss_max ps"
  shows "\<forall>t \<in> set (tracks_active (run_frames ps detections_by_frame)).
           0 \<le> track_age t \<and> track_age t \<le> t_miss_max ps"
proof -
  have "\<forall>t \<in> set (tracks_active (run_frames ps detections_by_frame)). age_ok ps t"
  proof (induction detections_by_frame rule: rev_induct)
    case Nil
    then show ?case by (simp add: run_frames_def initial_state_def)
  next
    case (snoc fr frs)
    then show ?case
      using process_frame_age [OF assms] by (simp add: run_frames_snoc)
  qed
  then show ?thesis by (simp add: age_ok_def)
qed

theorem active_tracks_age_within_t_miss_max_witness:
  "0 \<le> t_miss_max (example_params 1)
   \<and> map track_age
       (tracks_active (run_frames (example_params 1) [(1, [example_car]), (2, [])])) = [1]
   \<and> (1::int) \<le> t_miss_max (example_params 1)"
proof -
  let ?P = "example_params 1"
  let ?D = "[(1, [example_car]), (2, [])]"
  have tm: "0 \<le> t_miss_max ?P" by (simp add: example_params_def)
  have m: "map track_age (tracks_active (run_frames ?P ?D)) = [1]" by code_simp
  from active_tracks_age_within_t_miss_max [OF tm, of ?D]
  have "\<forall>a \<in> set (map track_age (tracks_active (run_frames ?P ?D))). a \<le> t_miss_max ?P"
    by simp
  with m tm show ?thesis by simp
qed


subsection \<open>Entries of association lists\<close>

lemma set_AList_update_subset: "set (AList.update k v al) \<subseteq> insert (k, v) (set al)"
  by (induction al) auto

lemma set_AList_map_entry_subset:
  "set (AList.map_entry k f al) \<subseteq> set al \<union> {(k, f v) | v. (k, v) \<in> set al}"
  by (induction al) auto

lemma dets_above_update_empty:
  "dets_above l nd \<Longrightarrow> dets_above l (AList.update k [] nd)"
  using set_AList_update_subset [of k "[]" nd]
  by (fastforce simp: dets_above_def)

lemma dets_above_map_entry:
  assumes "dets_above l nd" "l \<le> det_conf d"
  shows "dets_above l (AList.map_entry k (AList.update v (d, b)) nd)"
  unfolding dets_above_def
proof (intro ballI)
  fix fd e
  assume fd: "fd \<in> snd ` set (AList.map_entry k (AList.update v (d, b)) nd)"
    and e: "e \<in> set fd"
  from fd obtain k' where "(k', fd) \<in> set (AList.map_entry k (AList.update v (d, b)) nd)"
    by auto
  with set_AList_map_entry_subset [of k "AList.update v (d, b)" nd]
  consider "(k', fd) \<in> set nd"
    | old where "(k, old) \<in> set nd" "fd = AList.update v (d, b) old"
    by auto
  then show "l \<le> det_conf (fst (snd e))"
  proof cases
    case 1
    with assms(1) e show ?thesis by (force simp: dets_above_def)
  next
    case 2
    with e set_AList_update_subset [of v "(d, b)" old]
    have "e = (v, d, b) \<or> e \<in> set old" by auto
    with 2 assms show ?thesis by (force simp: dets_above_def)
  qed
qed

lemma track_step_conf:
  assumes "conf_inv ps s" "\<forall>c \<in> set (track_conf t). sigma_l ps \<le> c"
  shows "conf_inv ps (track_step ps fn t s)"
proof (cases "find_match ps t (dets s)")
  case None
  with assms show ?thesis
    by (auto simp: track_step_def conf_inv_def Let_def)
next
  case (Some bm)
  then have "bm \<in> set (dets s)" by (rule find_match_mem)
  with assms have bm: "sigma_l ps \<le> det_conf bm" by (simp add: conf_inv_def)
  have "dets_above (sigma_l ps)
          (AList.map_entry fn (AList.update (track_vehID (update_track fn t bm)) (bm, False))
             (new_detections s))"
    using assms bm by (intro dets_above_map_entry) (simp_all add: conf_inv_def)
  moreover have "\<forall>c \<in> set (track_conf (update_track fn t bm)). sigma_l ps \<le> c"
    using assms bm by (simp add: update_track_def)
  moreover have "\<forall>d \<in> set (remove1 bm (dets s)). sigma_l ps \<le> det_conf d"
    using assms notin_set_remove1 by (fastforce simp: conf_inv_def)
  ultimately show ?thesis
    using Some assms by (auto simp: track_step_def conf_inv_def Let_def)
qed

lemma fold_track_step_conf:
  assumes "conf_inv ps s" "\<forall>t \<in> set ts. \<forall>c \<in> set (track_conf t). sigma_l ps \<le> c"
  shows "conf_inv ps (fold (track_step ps fn) ts s)"
  using assms
proof (induction ts arbitrary: s)
  case Nil
  then show ?case by simp
next
  case (Cons t ts)
  have "conf_inv ps (track_step ps fn t s)"
    using Cons.prems by (intro track_step_conf) simp_all
  then show ?case using Cons.IH [of "track_step ps fn t s"] Cons.prems by simp
qed

lemma start_track_conf:
  assumes "conf_inv ps s" "sigma_l ps \<le> det_conf d"
  shows "conf_inv ps (start_track fn d s)"
proof -
  have "dets_above (sigma_l ps)
          (AList.map_entry fn (AList.update (vehID s + 1) (d, True)) (new_detections s))"
    using assms by (intro dets_above_map_entry) (simp_all add: conf_inv_def)
  then show ?thesis
    using assms by (auto simp: start_track_def conf_inv_def Let_def)
qed

lemma fold_start_track_conf:
  assumes "conf_inv ps s" "\<forall>d \<in> set ds. sigma_l ps \<le> det_conf d"
  shows "conf_inv ps (fold (start_track fn) ds s)"
  using assms
proof (induction ds arbitrary: s)
  case Nil
  then show ?case by simp
next
  case (Cons d ds)
  have "conf_inv ps (start_track fn d s)"
    using Cons.prems by (intro start_track_conf) simp_all
  then show ?case using Cons.IH [of "start_track fn d s"] Cons.prems by simp
qed

lemma process_frame_conf:
  assumes "conf_pool ps s"
  shows "conf_pool ps (process_frame ps fr s)"
proof -
  define s1 where "s1 = s\<lparr> dets := filter (\<lambda>d. det_conf d \<ge> sigma_l ps) (snd fr),
                  new_detections := AList.update (fst fr) [] (new_detections s),
                  updated_tracks := [],
                  saved_tracks := [] \<rparr>"
  define s2 where "s2 = fold (track_step ps (fst fr)) (tracks_active s1) s1"
  define s3 where "s3 = fold (start_track (fst fr)) (dets s2) (s2\<lparr> new_tracks := [] \<rparr>)"
  have res: "process_frame ps fr s
               = s3\<lparr> tracks_active := updated_tracks s3 @ saved_tracks s3 @ new_tracks s3 \<rparr>"
    by (simp add: process_frame_def Let_def s1_def s2_def s3_def)
  have c1: "conf_inv ps (s1\<lparr> new_tracks := [] \<rparr>)"
    using assms by (simp add: s1_def conf_inv_def conf_pool_def dets_above_update_empty)
  have t1: "\<forall>t \<in> set (tracks_active s1). \<forall>c \<in> set (track_conf t). sigma_l ps \<le> c"
    using assms by (simp add: s1_def conf_pool_def)
  have step_nt: "\<And>t u. track_step ps (fst fr) t (u\<lparr> new_tracks := [] \<rparr>)
                         = (track_step ps (fst fr) t u)\<lparr> new_tracks := [] \<rparr>"
    by (simp add: track_step_def Let_def split: option.splits)
  have fold_nt: "\<And>ts u. fold (track_step ps (fst fr)) ts (u\<lparr> new_tracks := [] \<rparr>)
                         = (fold (track_step ps (fst fr)) ts u)\<lparr> new_tracks := [] \<rparr>"
  proof -
    fix ts u
    show "fold (track_step ps (fst fr)) ts (u\<lparr> new_tracks := [] \<rparr>)
                         = (fold (track_step ps (fst fr)) ts u)\<lparr> new_tracks := [] \<rparr>"
      by (induction ts arbitrary: u) (simp_all add: step_nt)
  qed
  have "conf_inv ps (fold (track_step ps (fst fr)) (tracks_active s1) (s1\<lparr> new_tracks := [] \<rparr>))"
    using c1 t1 by (intro fold_track_step_conf) simp_all
  then have c2: "conf_inv ps (s2\<lparr> new_tracks := [] \<rparr>)"
    by (simp add: fold_nt s2_def)
  then have "\<forall>d \<in> set (dets s2). sigma_l ps \<le> det_conf d"
    by (simp add: conf_inv_def)
  with c2 have c3: "conf_inv ps s3"
    unfolding s3_def by (intro fold_start_track_conf) simp_all
  then show ?thesis
    by (auto simp: res conf_inv_def conf_pool_def)
qed

lemma run_frames_conf: "conf_pool ps (run_frames ps frs)"
proof (induction frs rule: rev_induct)
  case Nil
  then show ?case
    by (simp add: run_frames_def initial_state_def conf_pool_def dets_above_def)
next
  case (snoc fr frs)
  then show ?case by (simp add: run_frames_snoc process_frame_conf)
qed

lemma mark_finished_dets:
  assumes "fd' \<in> snd ` set (mark_finished ids nd)" "e' \<in> set fd'"
  shows "\<exists>fd \<in> snd ` set nd. \<exists>e \<in> set fd. a_det (snd e') = fst (snd e)"
proof -
  let ?g = "\<lambda>(v, d, b). (v, \<lparr> a_det = d, first = b, finished = (v \<in> set ids) \<rparr>)"
  from assms(1) obtain p where p: "p \<in> set nd" "fd' = map ?g (snd p)"
    by (auto simp: mark_finished_def)
  with assms(2) obtain x where x: "x \<in> set (snd p)" "e' = ?g x" by auto
  obtain v d b where "x = (v, d, b)" by (rule prod_cases3)
  with x have "a_det (snd e') = fst (snd x)" by simp
  moreover from p have "snd p \<in> snd ` set nd" by simp
  ultimately show ?thesis using x(1) by blast
qed

text \<open>
  Claim C7. In every frame the detection chosen as the best match of a track is taken
  from the detections with confidence at least \<^verbatim>\<open>sigma_l\<close>. So after any number of
  frames every confidence a track of the pool has taken from a detection is at least
  \<^verbatim>\<open>sigma_l\<close>, and every detection recorded in \<^verbatim>\<open>new_detections\<close> (these are the
  matched detections and the detections that started a track) has confidence at least
  \<^verbatim>\<open>sigma_l\<close>, also in the value \<^verbatim>\<open>track_iou\<close> returns: a detection below
  \<^verbatim>\<open>sigma_l\<close> is never matched and never starts a track.
\<close>

theorem sub_threshold_detection_never_tracked:
  "(\<forall>t \<in> set (tracks_active (run_frames ps detections_by_frame)).
      \<forall>c \<in> set (track_conf t). sigma_l ps \<le> c)
   \<and> (\<forall>fd \<in> snd ` set (new_detections (run_frames ps detections_by_frame)).
        \<forall>e \<in> set fd. sigma_l ps \<le> det_conf (fst (snd e)))
   \<and> (\<forall>nd fs ids. track_iou ps detections_by_frame = Inr (nd, fs, ids) \<longrightarrow>
        (\<forall>fd \<in> snd ` set nd. \<forall>e \<in> set fd. sigma_l ps \<le> det_conf (a_det (snd e))))
   \<and> (\<forall>track frame_dets ds best_match.
         set ds \<subseteq> set (filter (\<lambda>d. det_conf d \<ge> sigma_l ps) frame_dets)
         \<and> find_match ps track ds = Some best_match
         \<longrightarrow> sigma_l ps \<le> det_conf best_match)"
proof -
  let ?s = "run_frames ps detections_by_frame"
  have inv: "conf_pool ps ?s" by (rule run_frames_conf)
  then have a: "\<forall>t \<in> set (tracks_active ?s). \<forall>c \<in> set (track_conf t). sigma_l ps \<le> c"
    by (simp add: conf_pool_def)
  from inv have b: "\<forall>fd \<in> snd ` set (new_detections ?s).
                      \<forall>e \<in> set fd. sigma_l ps \<le> det_conf (fst (snd e))"
    by (simp add: conf_pool_def dets_above_def)
  have c: "\<forall>nd fs ids. track_iou ps detections_by_frame = Inr (nd, fs, ids) \<longrightarrow>
        (\<forall>fd \<in> snd ` set nd. \<forall>e \<in> set fd. sigma_l ps \<le> det_conf (a_det (snd e)))"
  proof (intro allI impI ballI)
    fix nd fs ids fd' e'
    assume r: "track_iou ps detections_by_frame = Inr (nd, fs, ids)"
      and fd': "fd' \<in> snd ` set nd" and e': "e' \<in> set fd'"
    from r have "nd = mark_finished (vehIDs_finished ?s) (new_detections ?s)"
      by (auto simp: track_iou_def Let_def split: sum.splits)
    with fd' have "fd' \<in> snd ` set (mark_finished (vehIDs_finished ?s) (new_detections ?s))"
      by simp
    from mark_finished_dets [OF this e']
    obtain fd e where "fd \<in> snd ` set (new_detections ?s)" "e \<in> set fd"
      "a_det (snd e') = fst (snd e)" by blast
    with b show "sigma_l ps \<le> det_conf (a_det (snd e'))" by auto
  qed
  have d: "\<forall>track frame_dets ds best_match.
         set ds \<subseteq> set (filter (\<lambda>d. det_conf d \<ge> sigma_l ps) frame_dets)
         \<and> find_match ps track ds = Some best_match
         \<longrightarrow> sigma_l ps \<le> det_conf best_match"
  proof (intro allI impI)
    fix track frame_dets ds best_match
    assume h: "set ds \<subseteq> set (filter (\<lambda>d. det_conf d \<ge> sigma_l ps) frame_dets)
         \<and> find_match ps track ds = Some best_match"
    then have "best_match \<in> set ds" using find_match_mem by blast
    with h have "best_match \<in> set (filter (\<lambda>d. det_conf d \<ge> sigma_l ps) frame_dets)"
      by blast
    then show "sigma_l ps \<le> det_conf best_match" by simp
  qed
  from a b c d show ?thesis by (intro conjI)
qed

theorem sub_threshold_detection_never_tracked_witness:
  "new_detections (run_frames (example_params 1) [(1, [example_car, example_faint])])
     = [(1, [(1, example_car, True)])]
   \<and> sigma_l (example_params 1) \<le> det_conf example_car"
proof -
  let ?P = "example_params 1"
  let ?D = "[(1, [example_car, example_faint])]"
  have nd: "new_detections (run_frames ?P ?D) = [(1, [(1, example_car, True)])]"
    by code_simp
  from sub_threshold_detection_never_tracked [of ?P ?D]
  have "\<forall>fd \<in> snd ` set (new_detections (run_frames ?P ?D)).
          \<forall>e \<in> set fd. sigma_l ?P \<le> det_conf (fst (snd e))"
    by (elim conjE)
  with nd show ?thesis by simp
qed

subsection \<open>Dictionary updates\<close>

lemma AList_update_fresh:
  "k \<notin> fst ` set al \<Longrightarrow> AList.update k v al = al @ [(k, v)]"
  by (induction al) auto

lemma map_fst_map_entry: "map fst (AList.map_entry k f al) = map fst al"
  by (induction al) auto

lemma map_of_map_entry_same:
  "map_of al k = Some v \<Longrightarrow> map_of (AList.map_entry k f al) k = Some (f v)"
  by (simp add: map_of_map_entry)

lemma map_of_map_entry_other:
  "k' \<noteq> k \<Longrightarrow> map_of (AList.map_entry k f al) k' = map_of al k'"
  by (simp add: map_of_map_entry)

lemma record_fresh:
  assumes "map_of nd fn = Some E" "v \<notin> fst ` set E"
  shows "map_of (AList.map_entry fn (AList.update v (d, b)) nd) fn = Some (E @ [(v, d, b)])"
  using assms by (simp add: map_of_map_entry_same AList_update_fresh)

subsection \<open>The three cases of an iteration over a track\<close>

lemma track_step_matched:
  assumes "find_match ps t (dets s) = Some bm"
  shows "track_step ps fn t s =
           s\<lparr> updated_tracks := updated_tracks s @ [update_track fn t bm],
              dets := remove1 bm (dets s),
              new_detections :=
                AList.map_entry fn (AList.update (track_vehID t) (bm, False))
                  (new_detections s),
              track_var := Some (update_track fn t bm) \<rparr>"
  using assms by (simp add: track_step_def Let_def update_track_def)

lemma track_step_unmatched:
  assumes "find_match ps t (dets s) = None"
  shows "new_detections (track_step ps fn t s) = new_detections s"
    and "dets (track_step ps fn t s) = dets s"
    and "updated_tracks (track_step ps fn t s) = updated_tracks s"
    and "saved_tracks (track_step ps fn t s) =
           (if track_age t < t_miss_max ps
            then saved_tracks s @ [t\<lparr> track_age := track_age t + 1 \<rparr>]
            else saved_tracks s)"
  using assms by (simp_all add: track_step_def Let_def)

lemma track_step_vehID [simp]: "vehID (track_step ps fn t s) = vehID s"
  by (simp add: track_step_def Let_def split: option.splits)

lemma fold_track_step_vehID [simp]: "vehID (fold (track_step ps fn) ts s) = vehID s"
  by (induction ts arbitrary: s) simp_all

lemma update_track_vehID [simp]: "track_vehID (update_track fn t bm) = track_vehID t"
  by (simp add: update_track_def)

subsection \<open>What the loop over the tracks records\<close>

lemma track_step_keys:
  "map fst (new_detections (track_step ps fn t s)) = map fst (new_detections s)"
proof (cases "find_match ps t (dets s)")
  case None
  then show ?thesis by (simp add: track_step_unmatched)
next
  case (Some bm)
  then show ?thesis by (simp add: track_step_matched map_fst_map_entry)
qed

lemma track_step_other:
  "k \<noteq> fn \<Longrightarrow>
     map_of (new_detections (track_step ps fn t s)) k = map_of (new_detections s) k"
proof (cases "find_match ps t (dets s)")
  case None
  then show ?thesis by (simp add: track_step_unmatched)
next
  case (Some bm)
  assume "k \<noteq> fn"
  with Some show ?thesis by (simp add: track_step_matched map_of_map_entry_other)
qed

lemma track_step_entry:
  assumes E: "map_of (new_detections s) fn = Some E"
    and fresh: "track_vehID t \<notin> fst ` set E"
  shows "\<exists>E'. map_of (new_detections (track_step ps fn t s)) fn = Some E'
              \<and> recorded E' + mset (dets (track_step ps fn t s)) = recorded E + mset (dets s)
              \<and> fst ` set E' \<subseteq> insert (track_vehID t) (fst ` set E)"
proof (cases "find_match ps t (dets s)")
  case None
  with E show ?thesis by (auto simp: track_step_unmatched)
next
  case (Some bm)
  then have mem: "bm \<in> set (dets s)" by (rule find_match_mem)
  let ?E' = "E @ [(track_vehID t, bm, False)]"
  have 1: "map_of (new_detections (track_step ps fn t s)) fn = Some ?E'"
    using Some record_fresh [OF E fresh] by (simp add: track_step_matched)
  have "mset (remove1 bm (dets s)) + {#bm#} = mset (dets s)"
    using mem by simp
  then have 2: "recorded ?E' + mset (dets (track_step ps fn t s)) = recorded E + mset (dets s)"
    using Some by (simp add: track_step_matched recorded_def)
  have 3: "fst ` set ?E' \<subseteq> insert (track_vehID t) (fst ` set E)" by auto
  from 1 2 3 show ?thesis by blast
qed

lemma disjoint_step:
  "A \<inter> B = {} \<Longrightarrow> A1 \<subseteq> insert x A \<Longrightarrow> x \<notin> B \<Longrightarrow> A1 \<inter> B = {}"
  by blast

lemma subset_step:
  "A2 \<subseteq> A1 \<union> B \<Longrightarrow> A1 \<subseteq> insert x A \<Longrightarrow> A2 \<subseteq> A \<union> insert x B"
  by blast

lemma fold_track_step_keys:
  "map fst (new_detections (fold (track_step ps fn) ts s)) = map fst (new_detections s)"
  by (induction ts arbitrary: s) (simp_all add: track_step_keys)

lemma fold_track_step_other:
  "k \<noteq> fn \<Longrightarrow>
     map_of (new_detections (fold (track_step ps fn) ts s)) k = map_of (new_detections s) k"
  by (induction ts arbitrary: s) (simp_all add: track_step_other)

lemma fold_track_step_entry:
  assumes "map_of (new_detections s) fn = Some E"
    and "distinct (map track_vehID ts)"
    and "fst ` set E \<inter> track_vehID ` set ts = {}"
  shows "\<exists>E'. map_of (new_detections (fold (track_step ps fn) ts s)) fn = Some E'
              \<and> recorded E' + mset (dets (fold (track_step ps fn) ts s))
                  = recorded E + mset (dets s)
              \<and> fst ` set E' \<subseteq> fst ` set E \<union> track_vehID ` set ts"
  using assms
proof (induction ts arbitrary: s E)
  case Nil
  then show ?case by simp
next
  case (Cons t ts)
  from Cons.prems have fresh: "track_vehID t \<notin> fst ` set E" by auto
  from track_step_entry [OF Cons.prems(1) fresh, of ps]
  obtain E1 where E1: "map_of (new_detections (track_step ps fn t s)) fn = Some E1"
    "recorded E1 + mset (dets (track_step ps fn t s)) = recorded E + mset (dets s)"
    "fst ` set E1 \<subseteq> insert (track_vehID t) (fst ` set E)"
    by blast
  have d: "distinct (map track_vehID ts)" using Cons.prems(2) by simp
  have nt: "track_vehID t \<notin> track_vehID ` set ts" using Cons.prems(2) by simp
  have "fst ` set E \<inter> track_vehID ` set ts = {}" using Cons.prems(3) by auto
  then have disj: "fst ` set E1 \<inter> track_vehID ` set ts = {}"
    using E1(3) nt by (rule disjoint_step)
  from Cons.IH [OF E1(1) d disj]
  obtain E' where E': "map_of (new_detections (fold (track_step ps fn) ts (track_step ps fn t s))) fn = Some E'"
    "recorded E' + mset (dets (fold (track_step ps fn) ts (track_step ps fn t s)))
       = recorded E1 + mset (dets (track_step ps fn t s))"
    "fst ` set E' \<subseteq> fst ` set E1 \<union> track_vehID ` set ts"
    by blast
  have "fst ` set E' \<subseteq> fst ` set E \<union> insert (track_vehID t) (track_vehID ` set ts)"
    using E'(3) E1(3) by (rule subset_step)
  then have sub: "fst ` set E' \<subseteq> fst ` set E \<union> track_vehID ` set (t # ts)"
    by simp
  have "recorded E' + mset (dets (fold (track_step ps fn) ts (track_step ps fn t s)))
          = recorded E + mset (dets s)"
    using E'(2) E1(2) by simp
  with E'(1) sub show ?case by simp
qed

subsection \<open>The ids of the tracks that stay in the pool\<close>

lemma track_step_ids:
  "\<exists>us ss. map track_vehID (updated_tracks (track_step ps fn t s))
               = map track_vehID (updated_tracks s) @ us
           \<and> map track_vehID (saved_tracks (track_step ps fn t s))
               = map track_vehID (saved_tracks s) @ ss
           \<and> (us @ ss = [track_vehID t] \<or> us @ ss = [])"
proof (cases "find_match ps t (dets s)")
  case None
  then show ?thesis by (simp add: track_step_unmatched)
next
  case (Some bm)
  then show ?thesis by (simp add: track_step_matched)
qed

lemma distinct_step:
  "distinct (U @ S) \<Longrightarrow> x \<notin> set U \<union> set S \<Longrightarrow>
   (us = [x] \<and> ss = []) \<or> (us = [] \<and> ss = [x]) \<or> (us = [] \<and> ss = []) \<Longrightarrow>
   distinct ((U @ us) @ (S @ ss))"
  by auto

lemma fold_track_step_ids:
  assumes "distinct (map track_vehID ts)"
    and "distinct (map track_vehID (updated_tracks s) @ map track_vehID (saved_tracks s))"
    and "(track_vehID ` set (updated_tracks s) \<union> track_vehID ` set (saved_tracks s))
           \<inter> track_vehID ` set ts = {}"
  shows "distinct (map track_vehID (updated_tracks (fold (track_step ps fn) ts s))
                   @ map track_vehID (saved_tracks (fold (track_step ps fn) ts s)))
         \<and> track_vehID ` set (updated_tracks (fold (track_step ps fn) ts s))
             \<union> track_vehID ` set (saved_tracks (fold (track_step ps fn) ts s))
           \<subseteq> track_vehID ` set (updated_tracks s) \<union> track_vehID ` set (saved_tracks s)
             \<union> track_vehID ` set ts"
  using assms
proof (induction ts arbitrary: s)
  case Nil
  then show ?case by simp
next
  case (Cons t ts)
  let ?s1 = "track_step ps fn t s"
  let ?U = "map track_vehID (updated_tracks s)" and ?S = "map track_vehID (saved_tracks s)"
  let ?U1 = "map track_vehID (updated_tracks ?s1)" and ?S1 = "map track_vehID (saved_tracks ?s1)"
  from track_step_ids [of ps fn t s]
  obtain us ss where st: "?U1 = ?U @ us" "?S1 = ?S @ ss"
    "us @ ss = [track_vehID t] \<or> us @ ss = []" by blast
  have tnew: "track_vehID t \<notin> set ?U \<union> set ?S" using Cons.prems(3) by auto
  have tts: "track_vehID t \<notin> set (map track_vehID ts)" using Cons.prems(2) Cons.prems(1) by simp
  have sub1: "set ?U1 \<union> set ?S1 \<subseteq> insert (track_vehID t) (set ?U \<union> set ?S)"
  proof -
    have "set us \<union> set ss \<subseteq> {track_vehID t}"
      using st(3) by (metis Un_empty_right empty_set empty_subsetI set_append subset_refl list.simps(15))
    then show ?thesis using st(1,2) by auto
  qed
  have d1: "distinct (?U1 @ ?S1)"
  proof -
    from st(3) have "(us = [track_vehID t] \<and> ss = []) \<or> (us = [] \<and> ss = [track_vehID t])
                     \<or> (us = [] \<and> ss = [])"
      by (auto simp: append_eq_Cons_conv)
    with Cons.prems(2) tnew have "distinct ((?U @ us) @ (?S @ ss))"
      by (rule distinct_step)
    then show ?thesis by (simp add: st(1,2))
  qed
  have disj0: "(set ?U \<union> set ?S) \<inter> set (map track_vehID ts) = {}"
    using Cons.prems(3) by auto
  have disj1: "(set ?U1 \<union> set ?S1) \<inter> set (map track_vehID ts) = {}"
    using disj0 sub1 tts by (rule disjoint_step)
  have d: "distinct (map track_vehID ts)" using Cons.prems(1) by simp
  have ih: "distinct (map track_vehID (updated_tracks (fold (track_step ps fn) ts ?s1))
                   @ map track_vehID (saved_tracks (fold (track_step ps fn) ts ?s1)))
         \<and> track_vehID ` set (updated_tracks (fold (track_step ps fn) ts ?s1))
             \<union> track_vehID ` set (saved_tracks (fold (track_step ps fn) ts ?s1))
           \<subseteq> track_vehID ` set (updated_tracks ?s1) \<union> track_vehID ` set (saved_tracks ?s1)
             \<union> track_vehID ` set ts"
    using d d1 disj1 by (intro Cons.IH) simp_all
  have "track_vehID ` set (updated_tracks (fold (track_step ps fn) ts ?s1))
             \<union> track_vehID ` set (saved_tracks (fold (track_step ps fn) ts ?s1))
           \<subseteq> (set ?U \<union> set ?S) \<union> insert (track_vehID t) (track_vehID ` set ts)"
    using ih sub1 by (intro subset_step [where ?A1.0 = "set ?U1 \<union> set ?S1"]) simp_all
  with ih show ?case by simp
qed

subsection \<open>What the loop over the remaining detections records\<close>

lemma start_track_keys:
  "map fst (new_detections (start_track fn d s)) = map fst (new_detections s)"
  by (simp add: start_track_def Let_def map_fst_map_entry)

lemma start_track_other:
  "k \<noteq> fn \<Longrightarrow>
     map_of (new_detections (start_track fn d s)) k = map_of (new_detections s) k"
  by (simp add: start_track_def Let_def map_of_map_entry_other)

lemma fold_start_track_keys:
  "map fst (new_detections (fold (start_track fn) ds s)) = map fst (new_detections s)"
  by (induction ds arbitrary: s) (simp_all add: start_track_keys)

lemma fold_start_track_other:
  "k \<noteq> fn \<Longrightarrow>
     map_of (new_detections (fold (start_track fn) ds s)) k = map_of (new_detections s) k"
  by (induction ds arbitrary: s) (simp_all add: start_track_other)

lemma start_track_entry:
  assumes E: "map_of (new_detections s) fn = Some E"
    and below: "\<forall>k \<in> fst ` set E. k \<le> vehID s"
  shows "map_of (new_detections (start_track fn d s)) fn = Some (E @ [(vehID s + 1, d, True)])"
proof -
  have "vehID s + 1 \<notin> fst ` set E" using below by force
  from record_fresh [OF E this]
  show ?thesis by (simp add: start_track_def Let_def)
qed

lemma fold_start_track_entry:
  assumes "map_of (new_detections s) fn = Some E"
    and "\<forall>k \<in> fst ` set E. k \<le> vehID s"
  shows "\<exists>E'. map_of (new_detections (fold (start_track fn) ds s)) fn = Some E'
              \<and> recorded E' = recorded E + mset ds"
  using assms
proof (induction ds arbitrary: s E)
  case Nil
  then show ?case by simp
next
  case (Cons d ds)
  let ?E1 = "E @ [(vehID s + 1, d, True)]"
  have 1: "map_of (new_detections (start_track fn d s)) fn = Some ?E1"
    using Cons.prems by (rule start_track_entry)
  have 2: "\<forall>k \<in> fst ` set ?E1. k \<le> vehID (start_track fn d s)"
    using Cons.prems(2) by auto
  from Cons.IH [OF 1 2]
  obtain E' where "map_of (new_detections (fold (start_track fn) ds (start_track fn d s))) fn = Some E'"
    "recorded E' = recorded ?E1 + mset ds" by blast
  then show ?case by (simp add: recorded_def)
qed

lemma fold_start_track_new_ids:
  assumes "distinct (map track_vehID (new_tracks s))"
    and "\<forall>t \<in> set (new_tracks s). lo < track_vehID t \<and> track_vehID t \<le> vehID s"
    and "lo \<le> vehID s"
  shows "distinct (map track_vehID (new_tracks (fold (start_track fn) ds s)))
         \<and> (\<forall>t \<in> set (new_tracks (fold (start_track fn) ds s)).
               lo < track_vehID t \<and> track_vehID t \<le> vehID (fold (start_track fn) ds s))
         \<and> lo \<le> vehID (fold (start_track fn) ds s)"
  using assms
proof (induction ds arbitrary: s)
  case Nil
  then show ?case by simp
next
  case (Cons d ds)
  let ?s1 = "start_track fn d s"
  have nt: "map track_vehID (new_tracks ?s1) = map track_vehID (new_tracks s) @ [vehID s + 1]"
    by (simp add: start_track_def Let_def)
  have "vehID s + 1 \<notin> set (map track_vehID (new_tracks s))"
    using Cons.prems(2) by force
  then have 1: "distinct (map track_vehID (new_tracks ?s1))"
    using Cons.prems(1) by (simp add: nt)
  have "\<forall>v \<in> set (map track_vehID (new_tracks ?s1)). lo < v \<and> v \<le> vehID ?s1"
    unfolding nt using Cons.prems(2,3) by auto
  then have 2: "\<forall>t \<in> set (new_tracks ?s1). lo < track_vehID t \<and> track_vehID t \<le> vehID ?s1"
    by simp
  have 3: "lo \<le> vehID ?s1" using Cons.prems(3) by simp
  from Cons.IH [OF 1 2 3] show ?case by simp
qed

subsection \<open>One frame\<close>

lemma distinct_low_high:
  fixes lo :: int
  assumes "distinct A" "distinct B" "\<forall>a \<in> set A. a \<le> lo" "\<forall>b \<in> set B. lo < b"
  shows "distinct (A @ B)"
  using assms by force

lemma process_frame_records:
  assumes inv: "ids_inv s"
  shows "\<exists>E. map_of (new_detections (process_frame ps (fn, ds) s)) fn = Some E
              \<and> recorded E = mset (filter (\<lambda>d. sigma_l ps \<le> det_conf d) ds)"
    and "\<And>k. k \<noteq> fn \<Longrightarrow>
           map_of (new_detections (process_frame ps (fn, ds) s)) k
             = map_of (new_detections s) k"
    and "map fst (new_detections (process_frame ps (fn, ds) s))
           = (if fn \<in> set (map fst (new_detections s)) then map fst (new_detections s)
              else map fst (new_detections s) @ [fn])"
    and "ids_inv (process_frame ps (fn, ds) s)"
proof -
  define s1 where "s1 = s\<lparr> dets := filter (\<lambda>d. det_conf d \<ge> sigma_l ps) ds,
                  new_detections := AList.update fn [] (new_detections s),
                  updated_tracks := [],
                  saved_tracks := [] \<rparr>"
  define s2 where "s2 = fold (track_step ps fn) (tracks_active s1) s1"
  define s2' where "s2' = s2\<lparr> new_tracks := [] \<rparr>"
  define s3 where "s3 = fold (start_track fn) (dets s2) s2'"
  have res: "process_frame ps (fn, ds) s
               = s3\<lparr> tracks_active := updated_tracks s3 @ saved_tracks s3 @ new_tracks s3 \<rparr>"
    by (simp add: process_frame_def Let_def s1_def s2_def s2'_def s3_def)
  have act1: "tracks_active s1 = tracks_active s" by (simp add: s1_def)
  have dist: "distinct (map track_vehID (tracks_active s))"
    and below: "\<forall>t \<in> set (tracks_active s). track_vehID t \<le> vehID s"
    using inv by (simp_all add: ids_inv_def)
  have v2: "vehID s2' = vehID s" by (simp add: s2'_def s2_def s1_def)
  \<comment> \<open>the dictionary of the frame\<close>
  have e1: "map_of (new_detections s1) fn = Some []"
    by (simp add: s1_def update_conv')
  from fold_track_step_entry [OF e1, of "tracks_active s1" ps]
  obtain E2 where E2: "map_of (new_detections s2) fn = Some E2"
    "recorded E2 + mset (dets s2) = recorded [] + mset (dets s1)"
    "fst ` set E2 \<subseteq> fst ` set [] \<union> track_vehID ` set (tracks_active s1)"
    using dist by (auto simp: s2_def act1)
  have e2': "map_of (new_detections s2') fn = Some E2" using E2(1) by (simp add: s2'_def)
  have k2: "\<forall>k \<in> fst ` set E2. k \<le> vehID s2'"
    using E2(3) below by (auto simp: v2 act1)
  from fold_start_track_entry [OF e2' k2, of "dets s2"]
  obtain E3 where E3: "map_of (new_detections s3) fn = Some E3"
    "recorded E3 = recorded E2 + mset (dets s2)"
    by (auto simp: s3_def)
  have "recorded E3 = mset (filter (\<lambda>d. sigma_l ps \<le> det_conf d) ds)"
    using E3(2) E2(2) by (simp add: recorded_def s1_def)
  with E3(1) show "\<exists>E. map_of (new_detections (process_frame ps (fn, ds) s)) fn = Some E
              \<and> recorded E = mset (filter (\<lambda>d. sigma_l ps \<le> det_conf d) ds)"
    by (simp add: res)
  \<comment> \<open>the other frames\<close>
  show "\<And>k. k \<noteq> fn \<Longrightarrow>
           map_of (new_detections (process_frame ps (fn, ds) s)) k
             = map_of (new_detections s) k"
  proof -
    fix k :: int
    assume k: "k \<noteq> fn"
    have "map_of (new_detections s3) k = map_of (new_detections s2') k"
      unfolding s3_def using k by (rule fold_start_track_other)
    also have "\<dots> = map_of (new_detections s2) k" by (simp add: s2'_def)
    also have "\<dots> = map_of (new_detections s1) k"
      unfolding s2_def using k by (rule fold_track_step_other)
    also have "\<dots> = map_of (new_detections s) k"
      using k by (simp add: s1_def update_conv')
    finally show "map_of (new_detections (process_frame ps (fn, ds) s)) k
             = map_of (new_detections s) k"
      by (simp add: res)
  qed
  \<comment> \<open>the frame numbers\<close>
  have "map fst (new_detections s3) = map fst (new_detections s2')"
    unfolding s3_def by (rule fold_start_track_keys)
  also have "\<dots> = map fst (new_detections s2)" by (simp add: s2'_def)
  also have "\<dots> = map fst (new_detections s1)"
    unfolding s2_def by (rule fold_track_step_keys)
  also have "\<dots> = (if fn \<in> set (map fst (new_detections s)) then map fst (new_detections s)
              else map fst (new_detections s) @ [fn])"
    by (simp add: s1_def update_keys)
  finally show "map fst (new_detections (process_frame ps (fn, ds) s))
           = (if fn \<in> set (map fst (new_detections s)) then map fst (new_detections s)
              else map fst (new_detections s) @ [fn])"
    by (simp add: res)
  \<comment> \<open>the ids of the pool\<close>
  have us1: "updated_tracks s1 = []" "saved_tracks s1 = []" by (simp_all add: s1_def)
  have old: "distinct (map track_vehID (updated_tracks s2) @ map track_vehID (saved_tracks s2))
         \<and> track_vehID ` set (updated_tracks s2) \<union> track_vehID ` set (saved_tracks s2)
           \<subseteq> track_vehID ` set (updated_tracks s1) \<union> track_vehID ` set (saved_tracks s1)
             \<union> track_vehID ` set (tracks_active s1)"
    unfolding s2_def using dist by (intro fold_track_step_ids) (simp_all add: us1 act1)
  then have old_below: "\<forall>a \<in> set (map track_vehID (updated_tracks s2)
                                    @ map track_vehID (saved_tracks s2)). a \<le> vehID s"
    using below by (auto simp: us1 act1)
  have new: "distinct (map track_vehID (new_tracks s3))
         \<and> (\<forall>t \<in> set (new_tracks s3). vehID s < track_vehID t \<and> track_vehID t \<le> vehID s3)
         \<and> vehID s \<le> vehID s3"
    unfolding s3_def by (intro fold_start_track_new_ids) (simp_all add: s2'_def v2 [unfolded s2'_def])
  have keep: "updated_tracks s3 = updated_tracks s2" "saved_tracks s3 = saved_tracks s2"
    by (simp_all add: s3_def s2'_def)
  have d_old: "distinct (map track_vehID (updated_tracks s2) @ map track_vehID (saved_tracks s2))"
    using old by (rule conjunct1)
  have d_new: "distinct (map track_vehID (new_tracks s3))"
    using new by (rule conjunct1)
  have new_above: "\<forall>b \<in> set (map track_vehID (new_tracks s3)). vehID s < b"
    using new by simp
  have "distinct ((map track_vehID (updated_tracks s2) @ map track_vehID (saved_tracks s2))
                  @ map track_vehID (new_tracks s3))"
    using d_old d_new old_below new_above by (rule distinct_low_high)
  moreover have "\<forall>t \<in> set (updated_tracks s2) \<union> set (saved_tracks s2) \<union> set (new_tracks s3).
                   track_vehID t \<le> vehID s3"
  proof
    fix t
    assume "t \<in> set (updated_tracks s2) \<union> set (saved_tracks s2) \<union> set (new_tracks s3)"
    then consider "t \<in> set (updated_tracks s2) \<union> set (saved_tracks s2)"
      | "t \<in> set (new_tracks s3)" by blast
    then show "track_vehID t \<le> vehID s3"
    proof cases
      case 1
      then have "track_vehID t \<in> set (map track_vehID (updated_tracks s2)
                                    @ map track_vehID (saved_tracks s2))" by auto
      with old_below have "track_vehID t \<le> vehID s" by blast
      with new show ?thesis by simp
    next
      case 2
      with new show ?thesis by blast
    qed
  qed
  ultimately show "ids_inv (process_frame ps (fn, ds) s)"
    by (simp add: res ids_inv_def keep)
qed

subsection \<open>All frames\<close>

lemma run_frames_records:
  assumes "distinct (map fst frs)"
  shows "ids_inv (run_frames ps frs)
         \<and> map fst (new_detections (run_frames ps frs)) = map fst frs
         \<and> (\<forall>fr \<in> set frs. \<exists>E. map_of (new_detections (run_frames ps frs)) (fst fr) = Some E
                \<and> recorded E = mset (filter (\<lambda>d. sigma_l ps \<le> det_conf d) (snd fr)))"
  using assms
proof (induction frs rule: rev_induct)
  case Nil
  then show ?case by (simp add: run_frames_def initial_state_def ids_inv_def)
next
  case (snoc fr frs)
  let ?s = "run_frames ps frs"
  let ?s' = "process_frame ps (fst fr, snd fr) ?s"
  from snoc.prems have d: "distinct (map fst frs)" and new: "fst fr \<notin> set (map fst frs)"
    by simp_all
  from snoc.IH [OF d] have inv: "ids_inv ?s"
    and keys: "map fst (new_detections ?s) = map fst frs"
    and old: "\<forall>g \<in> set frs. \<exists>E. map_of (new_detections ?s) (fst g) = Some E
                \<and> recorded E = mset (filter (\<lambda>d. sigma_l ps \<le> det_conf d) (snd g))"
    by simp_all
  have run: "run_frames ps (frs @ [fr]) = ?s'" by (simp add: run_frames_snoc)
  have 1: "ids_inv ?s'" using inv by (rule process_frame_records(4))
  have 2: "map fst (new_detections ?s') = map fst (frs @ [fr])"
    using process_frame_records(3) [OF inv, of ps "fst fr" "snd fr"] new keys by simp
  have 3: "\<forall>g \<in> set (frs @ [fr]). \<exists>E. map_of (new_detections ?s') (fst g) = Some E
                \<and> recorded E = mset (filter (\<lambda>d. sigma_l ps \<le> det_conf d) (snd g))"
  proof
    fix g
    assume "g \<in> set (frs @ [fr])"
    then consider "g = fr" | "g \<in> set frs" by auto
    then show "\<exists>E. map_of (new_detections ?s') (fst g) = Some E
                \<and> recorded E = mset (filter (\<lambda>d. sigma_l ps \<le> det_conf d) (snd g))"
    proof cases
      case 1
      then show ?thesis using process_frame_records(1) [OF inv, of ps "fst fr" "snd fr"] by simp
    next
      case 2
      then have "fst g \<in> set (map fst frs)" by simp
      with new have "fst g \<noteq> fst fr" by metis
      then have "map_of (new_detections ?s') (fst g) = map_of (new_detections ?s) (fst g)"
        using process_frame_records(2) [OF inv] by blast
      with old 2 show ?thesis by simp
    qed
  qed
  from 1 2 3 show ?case by (simp only: run) 
qed

lemma mark_finished_keys: "map fst (mark_finished ids nd) = map fst nd"
  by (induction nd) (auto simp: mark_finished_def)

lemma mark_finished_lookup:
  "map_of (mark_finished ids nd) k =
     map_option
       (map (\<lambda>(v, d, b). (v, \<lparr> a_det = d, first = b, finished = (v \<in> set ids) \<rparr>)))
       (map_of nd k)"
  by (induction nd) (auto simp: mark_finished_def)

lemma recorded_annotated:
  "mset (map (\<lambda>e. a_det (snd e))
           (map (\<lambda>(v, d, b). (v, \<lparr> a_det = d, first = b, finished = (v \<in> set ids) \<rparr>)) E))
     = recorded E"
proof -
  have "map (\<lambda>e. a_det (snd e))
           (map (\<lambda>(v, d, b). (v, \<lparr> a_det = d, first = b, finished = (v \<in> set ids) \<rparr>)) E)
        = map (\<lambda>e. fst (snd e)) E"
    by (induction E) auto
  then show ?thesis by (simp only: recorded_def)
qed

subsection \<open>Which tracks are written to the feature collection\<close>

lemma track_step_dropped:
  assumes "find_match ps t (dets s) = None" "\<not> track_age t < t_miss_max ps"
  shows "features (track_step ps fn t s)
           = features s @ (if finalizable ps t then [feature_of t] else [])"
    and "kept_ids (track_step ps fn t s) = kept_ids s"
  using assms by (simp_all add: track_step_def kept_ids_def)

lemma track_step_kept:
  assumes "find_match ps t (dets s) \<noteq> None \<or> track_age t < t_miss_max ps"
  shows "features (track_step ps fn t s) = features s"
    and "kept_ids (track_step ps fn t s) = insert (track_vehID t) (kept_ids s)"
proof -
  show "features (track_step ps fn t s) = features s"
    using assms by (auto simp: track_step_def Let_def split: option.splits)
  show "kept_ids (track_step ps fn t s) = insert (track_vehID t) (kept_ids s)"
  proof (cases "find_match ps t (dets s)")
    case None
    with assms show ?thesis by (auto simp: track_step_unmatched kept_ids_def)
  next
    case (Some bm)
    then show ?thesis by (auto simp: track_step_matched kept_ids_def)
  qed
qed

lemma kept_ids_step: "kept_ids s \<subseteq> kept_ids (track_step ps fn t s)"
  using track_step_dropped(2) [of ps t s fn] track_step_kept(2) [of ps t s fn]
  by (cases "find_match ps t (dets s) \<noteq> None \<or> track_age t < t_miss_max ps") auto

lemma kept_ids_step_upper:
  "kept_ids (track_step ps fn t s) \<subseteq> insert (track_vehID t) (kept_ids s)"
  using track_step_dropped(2) [of ps t s fn] track_step_kept(2) [of ps t s fn]
  by (cases "find_match ps t (dets s) \<noteq> None \<or> track_age t < t_miss_max ps") auto

lemma kept_ids_fold: "kept_ids s \<subseteq> kept_ids (fold (track_step ps fn) ts s)"
proof (induction ts arbitrary: s)
  case Nil
  then show ?case by simp
next
  case (Cons t ts)
  have "kept_ids s \<subseteq> kept_ids (track_step ps fn t s)" by (rule kept_ids_step)
  also have "\<dots> \<subseteq> kept_ids (fold (track_step ps fn) ts (track_step ps fn t s))"
    by (rule Cons.IH)
  finally show ?case by simp
qed

lemma kept_ids_fold_upper:
  "kept_ids (fold (track_step ps fn) ts s) \<subseteq> kept_ids s \<union> track_vehID ` set ts"
proof (induction ts arbitrary: s)
  case Nil
  then show ?case by simp
next
  case (Cons t ts)
  have "kept_ids (fold (track_step ps fn) ts (track_step ps fn t s))
          \<subseteq> kept_ids (track_step ps fn t s) \<union> track_vehID ` set ts"
    by (rule Cons.IH)
  moreover have "kept_ids (track_step ps fn t s) \<subseteq> insert (track_vehID t) (kept_ids s)"
    by (rule kept_ids_step_upper)
  ultimately have "kept_ids (fold (track_step ps fn) ts (track_step ps fn t s))
          \<subseteq> kept_ids s \<union> insert (track_vehID t) (track_vehID ` set ts)"
    by (rule subset_step)
  then show ?case by simp
qed

lemma fold_track_step_features:
  assumes "distinct (map track_vehID ts)"
    and "kept_ids s \<inter> track_vehID ` set ts = {}"
  shows "features (fold (track_step ps fn) ts s)
           = features s @ map feature_of
               (filter (\<lambda>t. track_vehID t \<notin> kept_ids (fold (track_step ps fn) ts s)
                             \<and> finalizable ps t) ts)"
  using assms
proof (induction ts arbitrary: s)
  case Nil
  then show ?case by simp
next
  case (Cons t ts)
  let ?s1 = "track_step ps fn t s"
  let ?sf = "fold (track_step ps fn) ts ?s1"
  have d: "distinct (map track_vehID ts)" using Cons.prems(1) by simp
  have tts: "track_vehID t \<notin> track_vehID ` set ts" using Cons.prems(1) by simp
  have tk: "track_vehID t \<notin> kept_ids s" using Cons.prems(2) by auto
  have disj0: "kept_ids s \<inter> track_vehID ` set ts = {}" using Cons.prems(2) by auto
  have disj1: "kept_ids ?s1 \<inter> track_vehID ` set ts = {}"
    using disj0 kept_ids_step_upper tts by (rule disjoint_step)
  have ih: "features ?sf = features ?s1 @ map feature_of
               (filter (\<lambda>u. track_vehID u \<notin> kept_ids ?sf \<and> finalizable ps u) ts)"
    using d disj1 by (rule Cons.IH)
  show ?case
  proof (cases "find_match ps t (dets s) \<noteq> None \<or> track_age t < t_miss_max ps")
    case True
    then have f1: "features ?s1 = features s"
      and "kept_ids ?s1 = insert (track_vehID t) (kept_ids s)"
      by (rule track_step_kept)+
    then have "track_vehID t \<in> kept_ids ?s1" by simp
    with kept_ids_fold [of ?s1 ps fn ts] have "track_vehID t \<in> kept_ids ?sf" by blast
    with ih f1 show ?thesis by simp
  next
    case False
    then have nm: "find_match ps t (dets s) = None" and old: "\<not> track_age t < t_miss_max ps"
      by simp_all
    have f1: "features ?s1 = features s @ (if finalizable ps t then [feature_of t] else [])"
      and k1: "kept_ids ?s1 = kept_ids s"
      using nm old by (rule track_step_dropped)+
    have "kept_ids ?sf \<subseteq> kept_ids ?s1 \<union> track_vehID ` set ts"
      by (rule kept_ids_fold_upper)
    with k1 tk tts have "track_vehID t \<notin> kept_ids ?sf" by blast
    with ih f1 show ?thesis by simp
  qed
qed

lemma process_frame_features:
  assumes inv: "ids_inv s"
  shows "features (process_frame ps fr s)
           = features s
             @ map feature_of (filter (finalizable ps) (left_pool s (process_frame ps fr s)))"
proof -
  define fn where "fn = fst fr"
  define s1 where "s1 = s\<lparr> dets := filter (\<lambda>d. det_conf d \<ge> sigma_l ps) (snd fr),
                  new_detections := AList.update fn [] (new_detections s),
                  updated_tracks := [],
                  saved_tracks := [] \<rparr>"
  define s2 where "s2 = fold (track_step ps fn) (tracks_active s1) s1"
  define s3 where "s3 = fold (start_track fn) (dets s2) (s2\<lparr> new_tracks := [] \<rparr>)"
  define s' where "s' = process_frame ps fr s"
  have res: "s' = s3\<lparr> tracks_active := updated_tracks s3 @ saved_tracks s3 @ new_tracks s3 \<rparr>"
    by (simp add: s'_def process_frame_def Let_def s1_def s2_def s3_def fn_def)
  have act1: "tracks_active s1 = tracks_active s" and f1: "features s1 = features s"
    and k1: "kept_ids s1 = {}"
    by (simp_all add: s1_def kept_ids_def)
  have dist: "distinct (map track_vehID (tracks_active s))"
    and below: "\<forall>t \<in> set (tracks_active s). track_vehID t \<le> vehID s"
    using inv by (simp_all add: ids_inv_def)
  have f2: "features s2 = features s @ map feature_of
               (filter (\<lambda>t. track_vehID t \<notin> kept_ids s2 \<and> finalizable ps t) (tracks_active s))"
    using fold_track_step_features [of "tracks_active s1" s1 ps fn] dist
    unfolding s2_def [symmetric] by (simp add: act1 f1 k1)
  have f3: "features s' = features s2" by (simp add: res s3_def)
  have new: "\<forall>t \<in> set (new_tracks s3). vehID s < track_vehID t"
  proof -
    have "distinct (map track_vehID (new_tracks s3))
         \<and> (\<forall>t \<in> set (new_tracks s3). vehID s < track_vehID t \<and> track_vehID t \<le> vehID s3)
         \<and> vehID s \<le> vehID s3"
      unfolding s3_def
      by (intro fold_start_track_new_ids) (simp_all add: s2_def s1_def)
    then show ?thesis by blast
  qed
  have pool: "track_vehID ` set (tracks_active s') = kept_ids s2 \<union> track_vehID ` set (new_tracks s3)"
    by (auto simp: res kept_ids_def s3_def)
  have same: "\<And>t. t \<in> set (tracks_active s) \<Longrightarrow>
          (track_vehID t \<notin> kept_ids s2) = (track_vehID t \<notin> track_vehID ` set (tracks_active s'))"
  proof -
    fix t assume "t \<in> set (tracks_active s)"
    with below have "track_vehID t \<le> vehID s" by blast
    with new have "track_vehID t \<notin> track_vehID ` set (new_tracks s3)" by force
    then show "(track_vehID t \<notin> kept_ids s2) = (track_vehID t \<notin> track_vehID ` set (tracks_active s'))"
      by (simp add: pool)
  qed
  have "filter (\<lambda>t. track_vehID t \<notin> kept_ids s2 \<and> finalizable ps t) (tracks_active s)
          = filter (\<lambda>t. track_vehID t \<notin> track_vehID ` set (tracks_active s') \<and> finalizable ps t)
              (tracks_active s)"
    using same by (intro filter_cong) auto
  also have "\<dots> = filter (finalizable ps) (left_pool s s')"
    by (simp add: left_pool_def conj_commute)
  finally show ?thesis using f2 f3 by (simp add: s'_def)
qed

lemma process_frame_ids_inv: "ids_inv s \<Longrightarrow> ids_inv (process_frame ps fr s)"
  using process_frame_records(4) [of s ps "fst fr" "snd fr"] by simp

lemma fold_process_frame_features:
  assumes "ids_inv s"
  shows "features (fold (process_frame ps) frs s)
           = features s @ map feature_of (filter (finalizable ps) (departed_from ps s frs))"
  using assms
proof (induction frs arbitrary: s)
  case Nil
  then show ?case by simp
next
  case (Cons fr frs)
  have "ids_inv (process_frame ps fr s)" using Cons.prems by (rule process_frame_ids_inv)
  from Cons.IH [OF this] process_frame_features [OF Cons.prems, of ps fr]
  show ?case by simp
qed

lemma assign_max_class_keeps:
  "assign_max_class tv fs = Inr fs' \<Longrightarrow>
     map (\<lambda>f. f\<lparr> prop_max_class := None \<rparr>) fs' = map (\<lambda>f. f\<lparr> prop_max_class := None \<rparr>) fs"
  by (induction fs arbitrary: fs') (auto split: option.splits sum.splits)

lemma reset_feature_of:
  "map (\<lambda>f. f\<lparr> prop_max_class := None \<rparr>) (map feature_of ts) = map feature_of ts"
  by (induction ts) (simp_all add: feature_of_def)

text \<open>
  Whenever \<^verbatim>\<open>track_iou\<close> returns, the returned features are, up to the property
  \<^verbatim>\<open>max_class\<close>, exactly the features of the tracks that left the pool during the run
  or were in it when the input ended, and that pass the test \<open>finalizable\<close> (maximum
  confidence at least \<^verbatim>\<open>sigma_h\<close>, frame span at least \<^verbatim>\<open>t_min\<close>), in this order.
\<close>

lemma returned_features_are_finalizable_departures:
  assumes "track_iou ps detections_by_frame = Inr (nd, fs, ids)"
  shows "map (\<lambda>f. f\<lparr> prop_max_class := None \<rparr>) fs
           = map feature_of
               (filter (finalizable ps)
                  (departures ps detections_by_frame
                   @ tracks_active (run_frames ps detections_by_frame)))"
proof -
  let ?s = "run_frames ps detections_by_frame"
  let ?X = "filter (finalizable ps) (tracks_active ?s)"
  let ?Y = "filter (finalizable ps) (departures ps detections_by_frame)"
  from assms have "assign_max_class (track_var ?s) (features ?s @ map feature_of ?X) = Inr fs"
    by (auto simp: track_iou_def Let_def split: sum.splits)
  then have A: "map (\<lambda>f. f\<lparr> prop_max_class := None \<rparr>) fs
               = map (\<lambda>f. f\<lparr> prop_max_class := None \<rparr>) (features ?s @ map feature_of ?X)"
    by (rule assign_max_class_keeps)
  have "ids_inv initial_state" by (simp add: ids_inv_def initial_state_def)
  then have B: "features ?s = map feature_of ?Y"
    using fold_process_frame_features [of initial_state ps detections_by_frame]
    by (simp add: run_frames_def departures_def initial_state_def)
  have "features ?s @ map feature_of ?X = map feature_of (?Y @ ?X)"
    by (simp only: B map_append)
  with A have "map (\<lambda>f. f\<lparr> prop_max_class := None \<rparr>) fs
               = map (\<lambda>f. f\<lparr> prop_max_class := None \<rparr>) (map feature_of (?Y @ ?X))"
    by (simp only:)
  then show ?thesis by (simp only: reset_feature_of filter_append)
qed

subsection \<open>Vehicle ids and flags of the recorded detections\<close>

lemma matched_entry_mono:
  "matched_entry fn V U e \<Longrightarrow> set U \<subseteq> set U' \<Longrightarrow> matched_entry fn V U' e"
  unfolding matched_entry_def by blast

lemma started_entry_mono:
  "started_entry fn lo N e \<Longrightarrow> set N \<subseteq> set N' \<Longrightarrow> started_entry fn lo N' e"
  unfolding started_entry_def by blast

lemma holds_latest_update_track: "holds_latest fn bm (update_track fn t bm)"
  by (simp add: holds_latest_def update_track_def)

lemma track_step_flags:
  assumes E: "map_of (new_detections s) fn = Some E"
    and fresh: "track_vehID t \<notin> fst ` set E"
    and dE: "distinct (map fst E)"
    and Q: "\<forall>e \<in> set E. matched_entry fn V (updated_tracks s) e"
    and tV: "track_vehID t \<in> V"
  shows "\<exists>E'. map_of (new_detections (track_step ps fn t s)) fn = Some E'
              \<and> distinct (map fst E')
              \<and> (\<forall>e \<in> set E'. matched_entry fn V (updated_tracks (track_step ps fn t s)) e)
              \<and> fst ` set E' \<subseteq> insert (track_vehID t) (fst ` set E)"
proof (cases "find_match ps t (dets s)")
  case None
  have "map_of (new_detections (track_step ps fn t s)) fn = Some E"
    using None E by (simp add: track_step_unmatched)
  moreover have "\<forall>e \<in> set E. matched_entry fn V (updated_tracks (track_step ps fn t s)) e"
    using None Q by (simp add: track_step_unmatched)
  moreover have "fst ` set E \<subseteq> insert (track_vehID t) (fst ` set E)" by blast
  ultimately show ?thesis using dE by blast
next
  case (Some bm)
  let ?E' = "E @ [(track_vehID t, bm, False)]"
  let ?U' = "updated_tracks s @ [update_track fn t bm]"
  have up: "updated_tracks (track_step ps fn t s) = ?U'"
    using Some by (simp add: track_step_matched)
  have 1: "map_of (new_detections (track_step ps fn t s)) fn = Some ?E'"
    using Some record_fresh [OF E fresh] by (simp add: track_step_matched)
  have 2: "distinct (map fst ?E')"
    using dE fresh by (simp add: image_iff)
  have new: "matched_entry fn V ?U' (track_vehID t, bm, False)"
    unfolding matched_entry_def using tV holds_latest_update_track [of fn bm t]
    by (simp add: Bex_def) (metis update_track_vehID)
  have old: "\<forall>e \<in> set E. matched_entry fn V ?U' e"
  proof
    fix e assume "e \<in> set E"
    with Q have "matched_entry fn V (updated_tracks s) e" by blast
    then show "matched_entry fn V ?U' e" by (rule matched_entry_mono) auto
  qed
  have 3: "\<forall>e \<in> set ?E'. matched_entry fn V (updated_tracks (track_step ps fn t s)) e"
    unfolding up using old new by simp
  have 4: "fst ` set ?E' \<subseteq> insert (track_vehID t) (fst ` set E)" by auto
  from 1 2 3 4 show ?thesis by blast
qed

lemma fold_track_step_flags:
  assumes "map_of (new_detections s) fn = Some E"
    and "distinct (map track_vehID ts)"
    and "fst ` set E \<inter> track_vehID ` set ts = {}"
    and "distinct (map fst E)"
    and "\<forall>e \<in> set E. matched_entry fn V (updated_tracks s) e"
    and "track_vehID ` set ts \<subseteq> V"
  shows "\<exists>E'. map_of (new_detections (fold (track_step ps fn) ts s)) fn = Some E'
              \<and> distinct (map fst E')
              \<and> (\<forall>e \<in> set E'.
                    matched_entry fn V (updated_tracks (fold (track_step ps fn) ts s)) e)"
  using assms
proof (induction ts arbitrary: s E)
  case Nil
  then show ?case by simp
next
  case (Cons t ts)
  have fresh: "track_vehID t \<notin> fst ` set E" using Cons.prems(3) by auto
  have tV: "track_vehID t \<in> V" using Cons.prems(6) by simp
  from track_step_flags [OF Cons.prems(1) fresh Cons.prems(4) Cons.prems(5) tV, of ps]
  obtain E1 where E1: "map_of (new_detections (track_step ps fn t s)) fn = Some E1"
    "distinct (map fst E1)"
    "\<forall>e \<in> set E1. matched_entry fn V (updated_tracks (track_step ps fn t s)) e"
    "fst ` set E1 \<subseteq> insert (track_vehID t) (fst ` set E)"
    by blast
  have d: "distinct (map track_vehID ts)" using Cons.prems(2) by simp
  have nt: "track_vehID t \<notin> track_vehID ` set ts" using Cons.prems(2) by simp
  have "fst ` set E \<inter> track_vehID ` set ts = {}" using Cons.prems(3) by auto
  then have disj: "fst ` set E1 \<inter> track_vehID ` set ts = {}"
    using E1(4) nt by (rule disjoint_step)
  have sub: "track_vehID ` set ts \<subseteq> V" using Cons.prems(6) by simp
  from Cons.IH [OF E1(1) d disj E1(2) E1(3) sub]
  show ?case by simp
qed

lemma holds_latest_new_track:
  "holds_latest fn d
     \<lparr> track_frames = [fn], track_bboxes = [make_bbox d], track_center = [center d],
       track_conf = [det_conf d], track_class = [det_class d],
       track_max_class = det_class d, track_max_conf = det_conf d,
       track_vehID = v, track_start_frame = fn, track_age = 0 \<rparr>"
  by (simp add: holds_latest_def)

lemma start_track_flags:
  assumes E: "map_of (new_detections s) fn = Some E"
    and below: "\<forall>k \<in> fst ` set E. k \<le> vehID s"
    and dE: "distinct (map fst E)"
    and Q: "\<forall>e \<in> set E. matched_entry fn V U e \<or> started_entry fn lo (new_tracks s) e"
    and lo: "lo \<le> vehID s"
  shows "\<exists>E'. map_of (new_detections (start_track fn d s)) fn = Some E'
              \<and> (\<forall>k \<in> fst ` set E'. k \<le> vehID (start_track fn d s))
              \<and> distinct (map fst E')
              \<and> (\<forall>e \<in> set E'. matched_entry fn V U e
                      \<or> started_entry fn lo (new_tracks (start_track fn d s)) e)"
proof -
  let ?v = "vehID s + 1"
  let ?E' = "E @ [(?v, d, True)]"
  let ?nt = "\<lparr> track_frames = [fn], track_bboxes = [make_bbox d], track_center = [center d],
       track_conf = [det_conf d], track_class = [det_class d],
       track_max_class = det_class d, track_max_conf = det_conf d,
       track_vehID = ?v, track_start_frame = fn, track_age = 0 \<rparr>"
  have nts: "new_tracks (start_track fn d s) = new_tracks s @ [?nt]"
    by (simp add: start_track_def Let_def)
  have 1: "map_of (new_detections (start_track fn d s)) fn = Some ?E'"
    using E below by (rule start_track_entry)
  have 2: "\<forall>k \<in> fst ` set ?E'. k \<le> vehID (start_track fn d s)"
    using below by auto
  have "?v \<notin> fst ` set E" using below by force
  then have 3: "distinct (map fst ?E')" using dE by (simp add: image_iff)
  have new: "started_entry fn lo (new_tracks s @ [?nt]) (?v, d, True)"
    unfolding started_entry_def using lo holds_latest_new_track [of fn d ?v]
    by simp
  have old: "\<forall>e \<in> set E. matched_entry fn V U e
                \<or> started_entry fn lo (new_tracks s @ [?nt]) e"
  proof
    fix e assume "e \<in> set E"
    with Q have "matched_entry fn V U e \<or> started_entry fn lo (new_tracks s) e" by blast
    then show "matched_entry fn V U e \<or> started_entry fn lo (new_tracks s @ [?nt]) e"
    proof
      assume "matched_entry fn V U e" then show ?thesis by blast
    next
      assume "started_entry fn lo (new_tracks s) e"
      then have "started_entry fn lo (new_tracks s @ [?nt]) e"
        by (rule started_entry_mono) auto
      then show ?thesis by blast
    qed
  qed
  have 4: "\<forall>e \<in> set ?E'. matched_entry fn V U e
              \<or> started_entry fn lo (new_tracks (start_track fn d s)) e"
    unfolding nts using old new by simp
  from 1 2 3 4 show ?thesis by blast
qed

lemma fold_start_track_flags:
  assumes "map_of (new_detections s) fn = Some E"
    and "\<forall>k \<in> fst ` set E. k \<le> vehID s"
    and "distinct (map fst E)"
    and "\<forall>e \<in> set E. matched_entry fn V U e \<or> started_entry fn lo (new_tracks s) e"
    and "lo \<le> vehID s"
  shows "\<exists>E'. map_of (new_detections (fold (start_track fn) ds s)) fn = Some E'
              \<and> distinct (map fst E')
              \<and> (\<forall>e \<in> set E'. matched_entry fn V U e
                      \<or> started_entry fn lo (new_tracks (fold (start_track fn) ds s)) e)"
  using assms
proof (induction ds arbitrary: s E)
  case Nil
  then show ?case by simp
next
  case (Cons d ds)
  from start_track_flags [OF Cons.prems, of d]
  obtain E1 where E1: "map_of (new_detections (start_track fn d s)) fn = Some E1"
    "\<forall>k \<in> fst ` set E1. k \<le> vehID (start_track fn d s)"
    "distinct (map fst E1)"
    "\<forall>e \<in> set E1. matched_entry fn V U e
        \<or> started_entry fn lo (new_tracks (start_track fn d s)) e"
    by blast
  have lo: "lo \<le> vehID (start_track fn d s)" using Cons.prems(5) by simp
  from Cons.IH [OF E1 lo] show ?case by simp
qed

lemma process_frame_flags:
  assumes inv: "ids_inv s"
    and E: "map_of (new_detections (process_frame ps (fn, ds) s)) fn = Some E"
  shows "distinct (map fst E)"
    and "\<forall>e \<in> set E.
           snd (snd e) = (fst e \<notin> track_vehID ` set (tracks_active s))
           \<and> (\<exists>t \<in> set (tracks_active (process_frame ps (fn, ds) s)).
                 track_vehID t = fst e \<and> holds_latest fn (fst (snd e)) t)"
proof -
  define s1 where "s1 = s\<lparr> dets := filter (\<lambda>d. det_conf d \<ge> sigma_l ps) ds,
                  new_detections := AList.update fn [] (new_detections s),
                  updated_tracks := [],
                  saved_tracks := [] \<rparr>"
  define s2 where "s2 = fold (track_step ps fn) (tracks_active s1) s1"
  define s2' where "s2' = s2\<lparr> new_tracks := [] \<rparr>"
  define s3 where "s3 = fold (start_track fn) (dets s2) s2'"
  define V where "V = track_vehID ` set (tracks_active s)"
  have res: "process_frame ps (fn, ds) s
               = s3\<lparr> tracks_active := updated_tracks s3 @ saved_tracks s3 @ new_tracks s3 \<rparr>"
    by (simp add: process_frame_def Let_def s1_def s2_def s2'_def s3_def)
  have act1: "tracks_active s1 = tracks_active s" by (simp add: s1_def)
  have dist: "distinct (map track_vehID (tracks_active s))"
    and below: "\<forall>t \<in> set (tracks_active s). track_vehID t \<le> vehID s"
    using inv by (simp_all add: ids_inv_def)
  have Vbelow: "\<forall>v \<in> V. v \<le> vehID s" using below by (auto simp: V_def)
  have v2: "vehID s2' = vehID s" by (simp add: s2'_def s2_def s1_def)
  have e1: "map_of (new_detections s1) fn = Some []"
    by (simp add: s1_def update_conv')
  have d1: "distinct (map track_vehID (tracks_active s1))" using dist by (simp add: act1)
  have disj0: "fst ` set ([] :: (int \<times> det \<times> bool) list) \<inter> track_vehID ` set (tracks_active s1) = {}"
    by simp
  have dE0: "distinct (map fst ([] :: (int \<times> det \<times> bool) list))" by simp
  have q0: "\<forall>e \<in> set ([] :: (int \<times> det \<times> bool) list).
              matched_entry fn V (updated_tracks s1) e" by simp
  have sub0: "track_vehID ` set (tracks_active s1) \<subseteq> V" by (simp add: act1 V_def)
  have "\<exists>E'. map_of (new_detections (fold (track_step ps fn) (tracks_active s1) s1)) fn = Some E'
              \<and> distinct (map fst E')
              \<and> (\<forall>e \<in> set E'.
                    matched_entry fn V
                      (updated_tracks (fold (track_step ps fn) (tracks_active s1) s1)) e)"
    using e1 d1 disj0 dE0 q0 sub0 by (rule fold_track_step_flags)
  then obtain E2 where E2: "map_of (new_detections s2) fn = Some E2"
    "distinct (map fst E2)"
    "\<forall>e \<in> set E2. matched_entry fn V (updated_tracks s2) e"
    unfolding s2_def by blast
  have e2': "map_of (new_detections s2') fn = Some E2" using E2(1) by (simp add: s2'_def)
  have k2: "\<forall>k \<in> fst ` set E2. k \<le> vehID s2'"
  proof
    fix k assume "k \<in> fst ` set E2"
    then obtain e where "e \<in> set E2" "k = fst e" by blast
    with E2(3) have "k \<in> V" by (auto simp: matched_entry_def)
    with Vbelow show "k \<le> vehID s2'" by (simp add: v2)
  qed
  have q2: "\<forall>e \<in> set E2. matched_entry fn V (updated_tracks s2) e
              \<or> started_entry fn (vehID s) (new_tracks s2') e"
    using E2(3) by blast
  have lo: "vehID s \<le> vehID s2'" by (simp add: v2)
  from fold_start_track_flags [OF e2' k2 E2(2) q2 lo, of "dets s2"]
  obtain E3 where E3: "map_of (new_detections s3) fn = Some E3"
    "distinct (map fst E3)"
    "\<forall>e \<in> set E3. matched_entry fn V (updated_tracks s2) e
        \<or> started_entry fn (vehID s) (new_tracks s3) e"
    unfolding s3_def by blast
  have "map_of (new_detections (process_frame ps (fn, ds) s)) fn = Some E3"
    using E3(1) by (simp add: res)
  with E have EE: "E = E3" by simp
  show "distinct (map fst E)" using E3(2) EE by simp
  have keep: "updated_tracks s3 = updated_tracks s2"
    by (simp add: s3_def s2'_def)
  have pool: "set (tracks_active (process_frame ps (fn, ds) s))
                = set (updated_tracks s2) \<union> set (saved_tracks s3) \<union> set (new_tracks s3)"
    by (auto simp: res keep)
  show "\<forall>e \<in> set E.
           snd (snd e) = (fst e \<notin> track_vehID ` set (tracks_active s))
           \<and> (\<exists>t \<in> set (tracks_active (process_frame ps (fn, ds) s)).
                 track_vehID t = fst e \<and> holds_latest fn (fst (snd e)) t)"
  proof
    fix e assume "e \<in> set E"
    with EE E3(3) consider "matched_entry fn V (updated_tracks s2) e"
      | "started_entry fn (vehID s) (new_tracks s3) e" by blast
    then show "snd (snd e) = (fst e \<notin> track_vehID ` set (tracks_active s))
           \<and> (\<exists>t \<in> set (tracks_active (process_frame ps (fn, ds) s)).
                 track_vehID t = fst e \<and> holds_latest fn (fst (snd e)) t)"
    proof cases
      case 1
      then have a: "\<not> snd (snd e)" and b: "fst e \<in> V"
        and c: "\<exists>u \<in> set (updated_tracks s2).
                  track_vehID u = fst e \<and> holds_latest fn (fst (snd e)) u"
        by (simp_all add: matched_entry_def)
      from c pool have "\<exists>t \<in> set (tracks_active (process_frame ps (fn, ds) s)).
                 track_vehID t = fst e \<and> holds_latest fn (fst (snd e)) t" by blast
      with a b show ?thesis by (simp add: V_def)
    next
      case 2
      then have a: "snd (snd e)" and b: "vehID s < fst e"
        and c: "\<exists>u \<in> set (new_tracks s3).
                  track_vehID u = fst e \<and> holds_latest fn (fst (snd e)) u"
        by (simp_all add: started_entry_def)
      from b Vbelow have "fst e \<notin> V" by force
      moreover from c pool have "\<exists>t \<in> set (tracks_active (process_frame ps (fn, ds) s)).
                 track_vehID t = fst e \<and> holds_latest fn (fst (snd e)) t" by blast
      ultimately show ?thesis using a by (simp add: V_def)
    qed
  qed
qed

lemma fold_process_frame_ids_inv:
  "ids_inv s \<Longrightarrow> ids_inv (fold (process_frame ps) frs s)"
  by (induction frs arbitrary: s) (simp_all add: process_frame_ids_inv)

lemma fold_process_frame_keeps:
  assumes "ids_inv s" "fn \<notin> fst ` set frs"
  shows "map_of (new_detections (fold (process_frame ps) frs s)) fn
           = map_of (new_detections s) fn"
  using assms
proof (induction frs arbitrary: s)
  case Nil
  then show ?case by simp
next
  case (Cons fr frs)
  have ne: "fn \<noteq> fst fr" and rest: "fn \<notin> fst ` set frs" using Cons.prems(2) by auto
  have inv': "ids_inv (process_frame ps fr s)"
    using Cons.prems(1) by (rule process_frame_ids_inv)
  have "map_of (new_detections (process_frame ps (fst fr, snd fr) s)) fn
          = map_of (new_detections s) fn"
    using Cons.prems(1) ne by (rule process_frame_records(2))
  then have "map_of (new_detections (process_frame ps fr s)) fn = map_of (new_detections s) fn"
    by simp
  with Cons.IH [OF inv' rest] show ?case by simp
qed

lemma run_frames_split:
  "run_frames ps (pre @ fr # post)
     = fold (process_frame ps) post (process_frame ps fr (run_frames ps pre))"
  by (simp add: run_frames_def)

lemma run_frames_ids_inv: "ids_inv (run_frames ps frs)"
  unfolding run_frames_def
  by (rule fold_process_frame_ids_inv) (simp add: ids_inv_def initial_state_def)

lemma mark_finished_entry:
  "map_of (mark_finished ids nd) k =
     map_option
       (map (\<lambda>e. (fst e, \<lparr> a_det = fst (snd e), first = snd (snd e),
                             finished = (fst e \<in> set ids) \<rparr>)))
       (map_of nd k)"
proof -
  have "(\<lambda>(v, d, b). (v, \<lparr> a_det = d, first = b, finished = (v \<in> set ids) \<rparr>))
          = (\<lambda>e. (fst e, \<lparr> a_det = fst (snd e), first = snd (snd e),
                             finished = (fst e \<in> set ids) \<rparr>))"
    by (simp add: fun_eq_iff)
  then show ?thesis by (simp add: mark_finished_lookup)
qed

text \<open>
  Claim C3, amended. Let the frame numbers of the input be distinct, as the keys of a
  dictionary are, and let \<^verbatim>\<open>track_iou\<close> return. Then the output has the frames of the
  input in their order, and for every frame of the input the dictionary of the frame
  holds exactly the detections of that frame with confidence at least \<^verbatim>\<open>sigma_l\<close>,
  each once and under a key of its own. The key is the id of the track that the
  detection was matched to or that it started: right after the frame a track with this
  id is in the active pool, and the frame number and the box, centre, confidence and
  class of the detection are its newest entries. The \<^verbatim>\<open>first\<close> flag says that no track
  of the pool had this id before the frame (the detection started the track), and the
  \<^verbatim>\<open>finished\<close> flag that the id is in the returned list of finished ids. The
  detections below \<^verbatim>\<open>sigma_l\<close> are not in the output.
\<close>

theorem output_holds_detections_at_or_above_sigma_l:
  assumes keys: "distinct (map fst (pre @ (frame_num, detections_frame) # post))"
    and ret: "track_iou ps (pre @ (frame_num, detections_frame) # post) = Inr (nd, fs, ids)"
  shows "map fst nd = map fst (pre @ (frame_num, detections_frame) # post)
       \<and> (\<exists>frame_det. map_of nd frame_num = Some frame_det
            \<and> distinct (map fst frame_det)
            \<and> mset (map (\<lambda>e. a_det (snd e)) frame_det)
                = mset (filter (\<lambda>d. sigma_l ps \<le> det_conf d) detections_frame)
            \<and> (\<forall>e \<in> set frame_det.
                   first (snd e)
                     = (fst e \<notin> track_vehID ` set (tracks_active (run_frames ps pre)))
                 \<and> finished (snd e) = (fst e \<in> set ids)
                 \<and> (\<exists>t \<in> set (tracks_active
                                 (run_frames ps (pre @ [(frame_num, detections_frame)]))).
                       track_vehID t = fst e
                     \<and> last (track_frames t) = frame_num
                     \<and> last (track_bboxes t) = make_bbox (a_det (snd e))
                     \<and> last (track_center t) = center (a_det (snd e))
                     \<and> last (track_conf t) = det_conf (a_det (snd e))
                     \<and> last (track_class t) = det_class (a_det (snd e)))))"
proof -
  let ?fr = "(frame_num, detections_frame)"
  let ?all = "pre @ ?fr # post"
  let ?s0 = "run_frames ps pre"
  let ?s1 = "process_frame ps ?fr ?s0"
  let ?sF = "run_frames ps ?all"
  have s1: "run_frames ps (pre @ [?fr]) = ?s1" by (simp add: run_frames_snoc)
  have sF: "?sF = fold (process_frame ps) post ?s1" by (rule run_frames_split)
  have inv0: "ids_inv ?s0" by (rule run_frames_ids_inv)
  have inv1: "ids_inv ?s1" using inv0 by (rule process_frame_ids_inv)
  from ret have nd: "nd = mark_finished (vehIDs_finished ?sF) (new_detections ?sF)"
    and ids: "ids = vehIDs_finished ?sF"
    by (auto simp: track_iou_def Let_def split: sum.splits)
  from process_frame_records(1) [OF inv0, of ps frame_num detections_frame]
  obtain E where E: "map_of (new_detections ?s1) frame_num = Some E"
    and rec: "recorded E = mset (filter (\<lambda>d. sigma_l ps \<le> det_conf d) detections_frame)"
    by blast
  have dE: "distinct (map fst E)" using inv0 E by (rule process_frame_flags(1))
  have flags: "\<forall>e \<in> set E.
           snd (snd e) = (fst e \<notin> track_vehID ` set (tracks_active ?s0))
           \<and> (\<exists>t \<in> set (tracks_active ?s1).
                 track_vehID t = fst e \<and> holds_latest frame_num (fst (snd e)) t)"
    using inv0 E by (rule process_frame_flags(2))
  have later: "frame_num \<notin> fst ` set post" using keys by auto
  have EF: "map_of (new_detections ?sF) frame_num = Some E"
    using fold_process_frame_keeps [OF inv1 later, of ps] E by (simp add: sF)
  let ?g = "\<lambda>e. (fst e, \<lparr> a_det = fst (snd e), first = snd (snd e),
                          finished = (fst e \<in> set ids) \<rparr>)"
  have 1: "map_of nd frame_num = Some (map ?g E)"
    using EF by (simp add: nd ids mark_finished_entry)
  have 2: "distinct (map fst (map ?g E))" using dE by (simp add: comp_def)
  have "map (\<lambda>e. a_det (snd e)) (map ?g E) = map (\<lambda>e. fst (snd e)) E"
    by (simp add: comp_def)
  then have 3: "mset (map (\<lambda>e. a_det (snd e)) (map ?g E))
                = mset (filter (\<lambda>d. sigma_l ps \<le> det_conf d) detections_frame)"
    using rec by (simp only: recorded_def)
  have 4: "\<forall>e' \<in> set (map ?g E).
                   first (snd e')
                     = (fst e' \<notin> track_vehID ` set (tracks_active ?s0))
                 \<and> finished (snd e') = (fst e' \<in> set ids)
                 \<and> (\<exists>t \<in> set (tracks_active (run_frames ps (pre @ [?fr]))).
                       track_vehID t = fst e'
                     \<and> last (track_frames t) = frame_num
                     \<and> last (track_bboxes t) = make_bbox (a_det (snd e'))
                     \<and> last (track_center t) = center (a_det (snd e'))
                     \<and> last (track_conf t) = det_conf (a_det (snd e'))
                     \<and> last (track_class t) = det_class (a_det (snd e')))"
  proof
    fix e' assume "e' \<in> set (map ?g E)"
    then obtain e where e: "e \<in> set E" and e': "e' = ?g e" by auto
    from flags e have f: "snd (snd e) = (fst e \<notin> track_vehID ` set (tracks_active ?s0))"
      and "\<exists>t \<in> set (tracks_active ?s1).
                 track_vehID t = fst e \<and> holds_latest frame_num (fst (snd e)) t"
      by blast+
    then obtain t where t: "t \<in> set (tracks_active ?s1)" "track_vehID t = fst e"
      "holds_latest frame_num (fst (snd e)) t" by blast
    from t(3) have h: "last (track_frames t) = frame_num"
      "last (track_bboxes t) = make_bbox (fst (snd e))"
      "last (track_center t) = center (fst (snd e))"
      "last (track_conf t) = det_conf (fst (snd e))"
      "last (track_class t) = det_class (fst (snd e))"
      by (simp_all add: holds_latest_def)
    have "\<exists>t \<in> set (tracks_active (run_frames ps (pre @ [?fr]))).
                       track_vehID t = fst e'
                     \<and> last (track_frames t) = frame_num
                     \<and> last (track_bboxes t) = make_bbox (a_det (snd e'))
                     \<and> last (track_center t) = center (a_det (snd e'))
                     \<and> last (track_conf t) = det_conf (a_det (snd e'))
                     \<and> last (track_class t) = det_class (a_det (snd e'))"
      unfolding s1 using t(1,2) h by (intro bexI [of _ t]) (simp_all add: e')
    with f show "first (snd e')
                     = (fst e' \<notin> track_vehID ` set (tracks_active ?s0))
                 \<and> finished (snd e') = (fst e' \<in> set ids)
                 \<and> (\<exists>t \<in> set (tracks_active (run_frames ps (pre @ [?fr]))).
                       track_vehID t = fst e'
                     \<and> last (track_frames t) = frame_num
                     \<and> last (track_bboxes t) = make_bbox (a_det (snd e'))
                     \<and> last (track_center t) = center (a_det (snd e'))
                     \<and> last (track_conf t) = det_conf (a_det (snd e'))
                     \<and> last (track_class t) = det_class (a_det (snd e')))"
      by (simp add: e')
  qed
  have 5: "map fst nd = map fst ?all"
    using run_frames_records [OF keys, of ps] by (simp add: nd mark_finished_keys)
  from 1 2 3 4 5 show ?thesis by blast
qed

theorem output_holds_detections_at_or_above_sigma_l_witness:
  "track_iou (example_params 1) [(1, [example_car, example_faint])]
     = Inr ([(1, [(1, \<lparr> a_det = example_car, first = True, finished = False \<rparr>)])], [], [])
   \<and> mset [example_car]
       = mset (filter (\<lambda>d. sigma_l (example_params 1) \<le> det_conf d)
                 [example_car, example_faint])"
proof -
  let ?P = "example_params 1"
  let ?D = "[(1::int, [example_car, example_faint])]"
  let ?ND = "[(1::int, [(1::int, \<lparr> a_det = example_car, first = True, finished = False \<rparr>)])]"
  have r: "track_iou ?P ([] @ (1, [example_car, example_faint]) # []) = Inr (?ND, [], [])"
    by code_simp
  have d: "distinct (map fst ([] @ (1::int, [example_car, example_faint]) # []))" by simp
  from output_holds_detections_at_or_above_sigma_l [OF d r]
  have "\<exists>frame_det. map_of ?ND 1 = Some frame_det
          \<and> mset (map (\<lambda>e. a_det (snd e)) frame_det)
              = mset (filter (\<lambda>d. sigma_l ?P \<le> det_conf d) [example_car, example_faint])"
    by blast
  then obtain frame_det where o1: "map_of ?ND 1 = Some frame_det"
    and o2: "mset (map (\<lambda>e. a_det (snd e)) frame_det)
       = mset (filter (\<lambda>d. sigma_l ?P \<le> det_conf d) [example_car, example_faint])"
    by (elim exE conjE)
  have mp: "map (\<lambda>e. a_det (snd e)) frame_det = [example_car]"
    using o1 by auto
  have "mset [example_car]
       = mset (filter (\<lambda>d. sigma_l ?P \<le> det_conf d) [example_car, example_faint])"
    using o2 unfolding mp .
  moreover from r have "track_iou ?P ?D = Inr (?ND, [], [])" by simp
  ultimately show ?thesis by (intro conjI)
qed

end
